theory Spec2Isabelle
  imports Complex_Main "HOL-Library.Multiset"
begin

section \<open>Grid store\<close>

text \<open>
  The grid of \<^verbatim>\<open>automata.js\<close> is an array of \<^verbatim>\<open>gridSize\<close> rows, each an array of
  \<^verbatim>\<open>gridSize\<close> numbers; \<^verbatim>\<open>grid[y][x]\<close> is the cell in column \<open>x\<close> of row \<open>y\<close>.
  The global \<^verbatim>\<open>gridSize\<close> is passed to every function that reads it (parameter \<open>N\<close>), the
  global \<^verbatim>\<open>grid\<close> is passed in and the updated grid is returned.

  Every read and write of a cell in the source sits behind the test
  \<^verbatim>\<open>x >= 0 && x < gridSize && y >= 0 && y < gridSize\<close> or inside a loop over
  \<^verbatim>\<open>0 .. gridSize - 1\<close>, and every grid the program holds was made by
  \<^verbatim>\<open>createEmptyGrid(gridSize)\<close>. The shape predicate \<open>grid_ok\<close> records this; on a grid of
  another shape the JavaScript would read \<^verbatim>\<open>undefined\<close> or throw, which the list functions
  below do not reproduce, so the theorems carry \<open>grid_ok\<close> as a hypothesis and the
  operations are shown to keep it.
\<close>

type_synonym grid = "int list list"

definition createEmptyGrid :: "nat \<Rightarrow> grid" where
  "createEmptyGrid sz = replicate sz (replicate sz 0)"

definition inBounds :: "nat \<Rightarrow> int \<Rightarrow> int \<Rightarrow> bool" where
  "inBounds N x y \<longleftrightarrow> x \<ge> 0 \<and> x < int N \<and> y \<ge> 0 \<and> y < int N"

definition cell :: "grid \<Rightarrow> int \<Rightarrow> int \<Rightarrow> int" where
  "cell g x y = g ! nat y ! nat x"

definition setCell :: "grid \<Rightarrow> int \<Rightarrow> int \<Rightarrow> int \<Rightarrow> grid" where
  "setCell g x y v = g[nat y := (g ! nat y)[nat x := v]]"

definition setCellAlive :: "nat \<Rightarrow> grid \<Rightarrow> int \<Rightarrow> int \<Rightarrow> grid" where
  "setCellAlive N g x y = (if inBounds N x y then setCell g x y 1 else g)"

definition grid_ok :: "nat \<Rightarrow> grid \<Rightarrow> bool" where
  "grid_ok N g \<longleftrightarrow> length g = N \<and> (\<forall>row \<in> set g. length row = N)"

definition cells01 :: "grid \<Rightarrow> bool" where
  "cells01 g \<longleftrightarrow> (\<forall>row \<in> set g. \<forall>c \<in> set row. c = 0 \<or> c = 1)"

section \<open>Game of Life rules\<close>

definition countNeighbors :: "nat \<Rightarrow> grid \<Rightarrow> int \<Rightarrow> int \<Rightarrow> int" where
  "countNeighbors N g x y =
     fold (\<lambda>dy count.
       fold (\<lambda>dx count.
         if dx = 0 \<and> dy = 0 then count
         else (let nx = x + dx; ny = y + dy
               in if inBounds N nx ny then count + cell g nx ny else count))
         [-1, 0, 1] count)
       [-1, 0, 1] 0"

definition nextCell :: "nat \<Rightarrow> grid \<Rightarrow> int \<Rightarrow> int \<Rightarrow> int" where
  "nextCell N g x y =
     (let neighbors = countNeighbors N g x y;
          isAlive = (cell g x y = 1)
      in if isAlive \<and> (neighbors = 2 \<or> neighbors = 3) then 1
         else if \<not> isAlive \<and> neighbors = 3 then 1
         else 0)"

definition nextGeneration :: "nat \<Rightarrow> grid \<Rightarrow> grid" where
  "nextGeneration N g =
     fold (\<lambda>y newGrid.
       fold (\<lambda>x newGrid. setCell newGrid (int x) (int y) (nextCell N g (int x) (int y)))
         [0..<N] newGrid)
       [0..<N] (createEmptyGrid N)"

text \<open>The live neighbours of a cell: the alive in-bounds positions among the eight around it.\<close>

definition liveNeighbors :: "nat \<Rightarrow> grid \<Rightarrow> int \<Rightarrow> int \<Rightarrow> (int \<times> int) set" where
  "liveNeighbors N g x y =
     {(nx, ny). \<bar>nx - x\<bar> \<le> 1 \<and> \<bar>ny - y\<bar> \<le> 1 \<and> (nx, ny) \<noteq> (x, y)
                \<and> inBounds N nx ny \<and> cell g nx ny = 1}"

section \<open>Cell writes\<close>

text \<open>A sequence of guarded cell writes, the common shape of every loop that fills the grid.\<close>

definition writes :: "(int \<times> int \<times> int) list \<Rightarrow> grid \<Rightarrow> grid" where
  "writes ws g = fold (\<lambda>(x, y, v) g. setCell g x y v) ws g"

text \<open>The contribution of one neighbouring position to the count.\<close>

definition nb :: "nat \<Rightarrow> grid \<Rightarrow> int \<Rightarrow> int \<Rightarrow> int" where
  "nb N g nx ny = (if inBounds N nx ny then cell g nx ny else 0)"

text \<open>The eight positions around \<open>(x, y)\<close>, in the order the two loops visit them.\<close>

definition around :: "int \<Rightarrow> int \<Rightarrow> (int \<times> int) list" where
  "around x y = [(x - 1, y - 1), (x, y - 1), (x + 1, y - 1), (x - 1, y), (x + 1, y),
                 (x - 1, y + 1), (x, y + 1), (x + 1, y + 1)]"

text \<open>
  The second script of \<^verbatim>\<open>automata.js\<close> (variant B, the one with the control buttons)
  carries its own copies of the neighbour counter and of the stepper.
\<close>

definition countNeighborsB :: "nat \<Rightarrow> grid \<Rightarrow> int \<Rightarrow> int \<Rightarrow> int" where
  "countNeighborsB N g x y =
     fold (\<lambda>dy count.
       fold (\<lambda>dx count.
         if dx = 0 \<and> dy = 0 then count
         else (let nx = x + dx; ny = y + dy
               in if nx \<ge> 0 \<and> nx < int N \<and> ny \<ge> 0 \<and> ny < int N
                  then count + cell g nx ny else count))
         [-1, 0, 1] count)
       [-1, 0, 1] 0"

definition nextGenerationB :: "nat \<Rightarrow> grid \<Rightarrow> grid" where
  "nextGenerationB N g =
     fold (\<lambda>y newGrid.
       fold (\<lambda>x newGrid.
         (let neighbors = countNeighborsB N g (int x) (int y);
              isAlive = (cell g (int x) (int y) = 1)
          in if isAlive \<and> (neighbors = 2 \<or> neighbors = 3) then setCell newGrid (int x) (int y) 1
             else if \<not> isAlive \<and> neighbors = 3 then setCell newGrid (int x) (int y) 1
             else setCell newGrid (int x) (int y) 0))
         [0..<N] newGrid)
       [0..<N] (createEmptyGrid N)"

text \<open>All cells of an \<open>N \<times> N\<close> grid, row by row.\<close>

definition allCells :: "nat \<Rightarrow> (nat \<times> nat) list" where
  "allCells N = concat (map (\<lambda>y. map (\<lambda>x. (x, y)) [0..<N]) [0..<N])"

section \<open>Pattern stamping (variant A)\<close>

text \<open>
  A pattern is an array of strings of \<^verbatim>\<open>"0"\<close> and \<^verbatim>\<open>"1"\<close>. \<^verbatim>\<open>stampPattern\<close> reads
  \<^verbatim>\<open>pattern[0].length\<close>, which throws a TypeError on an empty pattern; \<^verbatim>\<open>pattern[y][x]\<close>
  beyond the end of row \<open>y\<close> is \<^verbatim>\<open>undefined\<close>, which is not \<^verbatim>\<open>"1"\<close>.
\<close>

datatype js_error = TypeError

definition stampPattern :: "nat \<Rightarrow> string list \<Rightarrow> int \<Rightarrow> int \<Rightarrow> grid \<Rightarrow> js_error + grid" where
  "stampPattern N pattern offsetX offsetY g =
     (case pattern of
        [] \<Rightarrow> Inl TypeError
      | row0 # _ \<Rightarrow>
          (let height = length pattern; width = length row0
           in Inr (fold (\<lambda>y g.
                     fold (\<lambda>x g.
                       if x < length (pattern ! y) \<and> pattern ! y ! x = CHR ''1''
                       then (let gx = offsetX + int x; gy = offsetY + int y
                             in if gx \<ge> 0 \<and> gx < int N \<and> gy \<ge> 0 \<and> gy < int N
                                then setCell g gx gy 1 else g)
                       else g)
                       [0..<width] g)
                     [0..<height] g)))"

text \<open>The pattern marks position \<open>(px, py)\<close> alive: row \<open>py\<close> exists and holds \<^verbatim>\<open>"1"\<close> at \<open>px\<close>.\<close>

definition patternAlive :: "string list \<Rightarrow> int \<Rightarrow> int \<Rightarrow> bool" where
  "patternAlive pattern px py \<longleftrightarrow>
     0 \<le> py \<and> nat py < length pattern \<and> 0 \<le> px \<and> nat px < length (pattern ! nat py)
     \<and> pattern ! nat py ! nat px = CHR ''1''"

definition rectangular :: "string list \<Rightarrow> bool" where
  "rectangular pattern \<longleftrightarrow> pattern \<noteq> [] \<and> (\<forall>row \<in> set pattern. length row = length (hd pattern))"

text \<open>Setting a list of cells alive, each behind the bounds test of \<open>setCellAlive\<close>.\<close>

definition paint :: "nat \<Rightarrow> (int \<times> int) list \<Rightarrow> grid \<Rightarrow> grid" where
  "paint N ps g = fold (\<lambda>(x, y) g. setCellAlive N g x y) ps g"

text \<open>The grid cells a pattern stamps at an offset, in the order the loops reach them.\<close>

definition stampCells :: "string list \<Rightarrow> nat \<Rightarrow> int \<Rightarrow> int \<Rightarrow> (int \<times> int) list" where
  "stampCells pattern width offsetX offsetY =
     map (\<lambda>(x, y). (offsetX + int x, offsetY + int y))
       (filter (\<lambda>(x, y). x < length (pattern ! y) \<and> pattern ! y ! x = CHR ''1'')
         (concat (map (\<lambda>y. map (\<lambda>x. (x, y)) [0..<width]) [0..<length pattern])))"

section \<open>Ripples (variant A)\<close>

text \<open>
  A ripple is the object \<^verbatim>\<open>{ x, y, age, maxAge }\<close>; the fields \<^verbatim>\<open>x\<close> and \<^verbatim>\<open>y\<close> are
  named \<open>rx\<close> and \<open>ry\<close> here.
\<close>

record ripple =
  rx :: int
  ry :: int
  age :: int
  maxAge :: int

definition spawnRipple :: "int \<Rightarrow> int \<Rightarrow> ripple list \<Rightarrow> ripple list" where
  "spawnRipple x y ripples = ripples @ [\<lparr>rx = x, ry = y, age = 0, maxAge = 10\<rparr>]"

text \<open>
  The ring test of \<^verbatim>\<open>applyRipplesToGrid\<close>: \<^verbatim>\<open>dist = Math.sqrt(dx * dx + dy * dy)\<close> and
  \<^verbatim>\<open>dist >= radius - 0.5 && dist <= radius + 0.5\<close>. The square root is taken over the
  reals; \<open>dx\<close>, \<open>dy\<close> and \<open>radius\<close> are integers, so both comparisons are decided by
  comparisons of integers (lemma \<open>inRing_int\<close> below), which is what a correctly rounded
  double-precision square root decides too for coordinates of this size.
\<close>

definition inRing :: "int \<Rightarrow> int \<Rightarrow> int \<Rightarrow> bool" where
  "inRing dx dy radius \<longleftrightarrow>
     (let dist = sqrt (real_of_int (dx * dx + dy * dy))
      in dist \<ge> real_of_int radius - 0.5 \<and> dist \<le> real_of_int radius + 0.5)"

definition applyRipple :: "nat \<Rightarrow> ripple \<Rightarrow> grid \<Rightarrow> grid" where
  "applyRipple N r g =
     (let radius = age r
      in if radius = 0 then setCellAlive N g (rx r) (ry r)
         else (let minX = max 0 (rx r - radius);
                   maxX = min (int N - 1) (rx r + radius);
                   minY = max 0 (ry r - radius);
                   maxY = min (int N - 1) (ry r + radius)
               in fold (\<lambda>y g.
                    fold (\<lambda>x g.
                      (let dx = x - rx r; dy = y - ry r
                       in if inRing dx dy radius then setCellAlive N g x y else g))
                      [minX..maxX] g)
                    [minY..maxY] g))"

definition applyRipplesToGrid :: "nat \<Rightarrow> ripple list \<Rightarrow> grid \<Rightarrow> grid" where
  "applyRipplesToGrid N ripples g = fold (\<lambda>r g. applyRipple N r g) ripples g"

text \<open>
  \<^verbatim>\<open>updateRipples\<close> walks the array from the last index down to 0; \<open>updateRipples_loop k\<close>
  is the loop with \<open>k\<close> indices left, so its next index is \<open>k - 1\<close>. \<^verbatim>\<open>splice(i, 1)\<close>
  removes the element at index \<open>i\<close>.
\<close>

fun updateRipples_loop :: "nat \<Rightarrow> ripple list \<Rightarrow> ripple list" where
  "updateRipples_loop 0 ripples = ripples"
| "updateRipples_loop (Suc i) ripples =
     (let ripples1 = ripples[i := (ripples ! i)\<lparr>age := age (ripples ! i) + 1\<rparr>];
          ripples2 = (if age (ripples1 ! i) > maxAge (ripples1 ! i)
                      then take i ripples1 @ drop (Suc i) ripples1
                      else ripples1)
      in updateRipples_loop i ripples2)"

definition updateRipples :: "ripple list \<Rightarrow> ripple list" where
  "updateRipples ripples = updateRipples_loop (length ripples) ripples"

text \<open>The cells a ripple marks, as the specification describes them.\<close>

definition rippleMarks :: "ripple \<Rightarrow> int \<Rightarrow> int \<Rightarrow> bool" where
  "rippleMarks r x y \<longleftrightarrow>
     (if age r = 0 then x = rx r \<and> y = ry r
      else real_of_int (age r) - 1 / 2
             \<le> sqrt (real_of_int ((x - rx r) * (x - rx r) + (y - ry r) * (y - ry r)))
         \<and> sqrt (real_of_int ((x - rx r) * (x - rx r) + (y - ry r) * (y - ry r)))
             \<le> real_of_int (age r) + 1 / 2)"

text \<open>One ageing step of a ripple.\<close>

definition older :: "ripple \<Rightarrow> ripple" where
  "older r = r\<lparr>age := age r + 1\<rparr>"

text \<open>The cells one ripple tries to set alive, in the order its loops reach them.\<close>

definition rippleCells :: "nat \<Rightarrow> ripple \<Rightarrow> (int \<times> int) list" where
  "rippleCells N r =
     (if age r = 0 then [(rx r, ry r)]
      else filter (\<lambda>(x, y). inRing (x - rx r) (y - ry r) (age r))
             (concat (map (\<lambda>y. map (\<lambda>x. (x, y))
                                [max 0 (rx r - age r)..min (int N - 1) (rx r + age r)])
                          [max 0 (ry r - age r)..min (int N - 1) (ry r + age r)])))"

text \<open>The Game of Life rule on a cell value and a neighbour count, as \<open>nextCell\<close> applies it.\<close>

definition lifeRule :: "int \<Rightarrow> int \<Rightarrow> int" where
  "lifeRule c n = (if c = 1 \<and> (n = 2 \<or> n = 3) then 1 else if c \<noteq> 1 \<and> n = 3 then 1 else 0)"

text \<open>Indicators of a horizontal and of a vertical row of three cells centred at \<open>(cx, cy)\<close>.\<close>

definition hline :: "int \<Rightarrow> int \<Rightarrow> int \<Rightarrow> int \<Rightarrow> int" where
  "hline cx cy x y = (if y = cy \<and> \<bar>x - cx\<bar> \<le> 1 then 1 else 0)"

definition vline :: "int \<Rightarrow> int \<Rightarrow> int \<Rightarrow> int \<Rightarrow> int" where
  "vline cx cy x y = (if x = cx \<and> \<bar>y - cy\<bar> \<le> 1 then 1 else 0)"

section \<open>Letter and shape patterns (variant A)\<close>

text \<open>\<^verbatim>\<open>LETTERS\<close> and \<^verbatim>\<open>SHAPES\<close> are objects; their keys are kept in insertion order.\<close>

definition LETTERS :: "(char \<times> string list) list" where
  "LETTERS =
     [(CHR ''A'', [''01110'', ''10001'', ''10001'', ''11111'', ''10001'', ''10001'', ''10001'']),
      (CHR ''N'', [''10001'', ''11001'', ''10101'', ''10011'', ''10001'', ''10001'', ''10001'']),
      (CHR ''D'', [''11110'', ''10001'', ''10001'', ''10001'', ''10001'', ''10001'', ''11110'']),
      (CHR ''E'', [''11111'', ''10000'', ''10000'', ''11111'', ''10000'', ''10000'', ''11111'']),
      (CHR ''R'', [''11110'', ''10001'', ''10001'', ''11110'', ''10100'', ''10010'', ''10001''])]"

definition LETTER_WIDTH :: int where "LETTER_WIDTH = 5"
definition LETTER_HEIGHT :: int where "LETTER_HEIGHT = 7"
definition LETTER_SPACING :: int where "LETTER_SPACING = 1"

text \<open>
  The loop of \<^verbatim>\<open>placeWordANDER\<close> over the characters of the word; a character without an
  entry in \<^verbatim>\<open>LETTERS\<close> would give \<^verbatim>\<open>undefined\<close>, whose \<^verbatim>\<open>length\<close> is a TypeError.
  Halving an integer is exact in doubles, so \<^verbatim>\<open>Math.floor(k / 2)\<close> is \<open>k div 2\<close>.
\<close>

fun placeWord_loop :: "nat \<Rightarrow> string \<Rightarrow> int \<Rightarrow> int \<Rightarrow> grid \<Rightarrow> js_error + grid" where
  "placeWord_loop N [] x startY g = Inr g"
| "placeWord_loop N (ch # word) x startY g =
     (case map_of LETTERS ch of
        None \<Rightarrow> Inl TypeError
      | Some pattern \<Rightarrow>
          (case stampPattern N pattern x startY g of
             Inl e \<Rightarrow> Inl e
           | Inr g' \<Rightarrow> placeWord_loop N word (x + (LETTER_WIDTH + LETTER_SPACING)) startY g'))"

definition placeWordANDER :: "nat \<Rightarrow> grid \<Rightarrow> js_error + grid" where
  "placeWordANDER N g =
     (let word = ''ANDER'';
          totalWidth = int (length word) * LETTER_WIDTH + (int (length word) - 1) * LETTER_SPACING;
          startX = (int N - totalWidth) div 2;
          startY = (int N - LETTER_HEIGHT) div 2
      in placeWord_loop N word startX startY g)"

definition shape_tree :: "string list" where
  "shape_tree = [''00100'', ''01110'', ''11111'', ''00100'', ''00100'', ''00100'', ''01110'']"

definition shape_ant :: "string list" where
  "shape_ant = [''00100'', ''11111'', ''01110'', ''00100'', ''01010'', ''10001'', ''00000'']"

definition shape_octopus :: "string list" where
  "shape_octopus = [''0011100'', ''0111110'', ''1111111'', ''1111111'', ''0011100'', ''0101010'',
                    ''0101010'']"

definition shape_leaf :: "string list" where
  "shape_leaf = [''00100'', ''01110'', ''11111'', ''01110'', ''00100'', ''00100'', ''00100'']"

definition SHAPES :: "(string \<times> string list) list" where
  "SHAPES = [(''tree'', shape_tree), (''ant'', shape_ant), (''octopus'', shape_octopus),
             (''leaf'', shape_leaf)]"

text \<open>
  Time stamps and random draws are double-precision numbers, a subset of the reals. The
  subtraction of two time stamps (\<^verbatim>\<open>timestamp - lastStepTime\<close>) and the multiplication of a
  random draw by an integer (\<^verbatim>\<open>Math.random() * k\<close>) are double operations, which round
  their exact result. They are not computed here but passed in: \<open>dsub D a b\<close> is the double
  \<^verbatim>\<open>a - b\<close> and \<open>dmul D a b\<close> the double \<^verbatim>\<open>a * b\<close>. Nothing is assumed of them, so what is
  proved of the loops holds for whatever these operations return. Comparisons of doubles,
  \<^verbatim>\<open>Math.floor\<close> and the arithmetic of the small integers involved are exact.
\<close>

record double_ops =
  dsub :: "real \<Rightarrow> real \<Rightarrow> real"
  dmul :: "real \<Rightarrow> real \<Rightarrow> real"

text \<open>
  \<^verbatim>\<open>Math.random()\<close> is an input: \<open>random k\<close> is the value of the \<open>k\<close>-th call made by the
  function (a real in \<open>[0, 1)\<close>). \<open>scatter_loop\<close> is the loop of
  \<^verbatim>\<open>placeRandomNatureShapesScattered\<close>, with \<open>i\<close> the loop index and \<open>n\<close> the number of
  iterations left; iteration \<open>i\<close> makes the calls \<open>3 * i + 1\<close>, \<open>3 * i + 2\<close> and
  \<open>3 * i + 3\<close>. An index outside \<^verbatim>\<open>names\<close> gives \<^verbatim>\<open>undefined\<close> and then a TypeError.
\<close>

fun scatter_loop :: "nat \<Rightarrow> double_ops \<Rightarrow> (nat \<Rightarrow> real) \<Rightarrow> string list \<Rightarrow> nat \<Rightarrow> nat \<Rightarrow> grid
                       \<Rightarrow> js_error + grid" where
  "scatter_loop N D random names i 0 g = Inr g"
| "scatter_loop N D random names i (Suc n) g =
     (let k = \<lfloor>dmul D (random (3 * i + 1)) (real (length names))\<rfloor>
      in if 0 \<le> k \<and> k < int (length names)
         then (case map_of SHAPES (names ! nat k) of
                 None \<Rightarrow> Inl TypeError
               | Some pattern \<Rightarrow>
                   (case pattern of
                      [] \<Rightarrow> Inl TypeError
                    | row0 # _ \<Rightarrow>
                        (let height = length pattern;
                             width = length row0;
                             startX = \<lfloor>dmul D (random (3 * i + 2))
                                              (real_of_int (int N - int width))\<rfloor>;
                             startY = \<lfloor>dmul D (random (3 * i + 3))
                                              (real_of_int (int N - int height))\<rfloor>
                         in case stampPattern N pattern startX startY g of
                              Inl e \<Rightarrow> Inl e
                            | Inr g' \<Rightarrow> scatter_loop N D random names (i + 1) n g')))
         else Inl TypeError)"

definition placeRandomNatureShapesScattered :: "nat \<Rightarrow> double_ops \<Rightarrow> (nat \<Rightarrow> real) \<Rightarrow> grid
                                                \<Rightarrow> js_error + grid" where
  "placeRandomNatureShapesScattered N D random g =
     (let names = map fst SHAPES;
          minShapes = 12;
          maxShapes = 25;
          numShapes = \<lfloor>dmul D (random 0) (real_of_int (maxShapes - minShapes + 1))\<rfloor> + minShapes
      in scatter_loop N D random names 0 (nat numShapes) g)"

section \<open>Randomising the grid (variant B)\<close>

text \<open>\<open>random (y * N + x)\<close> is the call of \<^verbatim>\<open>Math.random()\<close> made for the cell \<open>(x, y)\<close>.\<close>

definition randomizeGrid :: "nat \<Rightarrow> (nat \<Rightarrow> real) \<Rightarrow> grid \<Rightarrow> grid" where
  "randomizeGrid N random g =
     fold (\<lambda>y g.
       fold (\<lambda>x g. setCell g (int x) (int y) (if random (y * N + x) < 0.25 then 1 else 0))
         [0..<N] g)
       [0..<N] g"

section \<open>Rendering\<close>

text \<open>
  \<^verbatim>\<open>drawGrid\<close> fills each cell's rectangle with one of two colours. The canvas is modelled
  by the colour of every cell; pixel sizes and the grid lines, which do not depend on the
  grid, are left out.
\<close>

datatype colour = LiveColour | DeadColour

definition drawGrid :: "nat \<Rightarrow> grid \<Rightarrow> colour list list" where
  "drawGrid N g =
     map (\<lambda>y. map (\<lambda>x. if cell g (int x) (int y) = 1 then LiveColour else DeadColour) [0..<N])
       [0..<N]"

section \<open>Program state and event handlers\<close>

text \<open>
  The module-level variables of the two scripts. Both scripts have \<^verbatim>\<open>gridSize\<close>,
  \<^verbatim>\<open>grid\<close>, \<^verbatim>\<open>running\<close>, \<^verbatim>\<open>speedMs\<close> and \<^verbatim>\<open>lastStepTime\<close>; variant A adds
  \<^verbatim>\<open>lastResetTime\<close> and \<^verbatim>\<open>ripples\<close>. The field \<open>screen\<close> is what \<^verbatim>\<open>drawGrid\<close> last drew.
  \<^verbatim>\<open>cellSize\<close> and the canvas size only scale the drawing and are left out, so
  \<^verbatim>\<open>resizeCanvas\<close> is a redraw. Time stamps are doubles, kept as the reals they denote;
  their subtraction is the operation \<open>dsub\<close> passed to the loops.
\<close>

record sim =
  gridSize :: nat
  grid :: grid
  running :: bool
  speedMs :: real
  lastStepTime :: real
  screen :: "colour list list"

record simA = sim +
  lastResetTime :: real
  ripples :: "ripple list"

definition resetIntervalMs :: real where
  "resetIntervalMs = 20000"

subsection \<open>Variant A\<close>

definition initA :: "real \<Rightarrow> js_error + simA" where
  "initA now =
     (case placeWordANDER 80 (createEmptyGrid 80) of
        Inl e \<Rightarrow> Inl e
      | Inr g \<Rightarrow> Inr \<lparr>gridSize = 80, grid = g, running = True, speedMs = 5000,
                      lastStepTime = now, screen = drawGrid 80 g,
                      lastResetTime = now, ripples = []\<rparr>)"

text \<open>
  One call of variant A's \<^verbatim>\<open>loop(timestamp)\<close>; the call of \<^verbatim>\<open>requestAnimationFrame\<close> at its
  end asks for the next call, which arrives as the next frame event. \<open>tickA\<close> is the body
  of the first \<^verbatim>\<open>if\<close> (the generation tick) and \<open>resetA\<close> is the second \<^verbatim>\<open>if\<close> (the
  periodic reset), which runs after it in the same call.
\<close>

definition tickA :: "real \<Rightarrow> simA \<Rightarrow> simA" where
  "tickA timestamp s =
     (let g1 = nextGeneration (gridSize s) (grid s);
          g2 = applyRipplesToGrid (gridSize s) (ripples s) g1;
          rs = updateRipples (ripples s)
      in s\<lparr>grid := g2, ripples := rs, screen := drawGrid (gridSize s) g2,
            lastStepTime := timestamp\<rparr>)"

definition resetA :: "double_ops \<Rightarrow> real \<Rightarrow> (nat \<Rightarrow> real) \<Rightarrow> simA \<Rightarrow> js_error + simA" where
  "resetA D timestamp random s1 =
     (if dsub D timestamp (lastResetTime s1) \<ge> resetIntervalMs
      then (case placeRandomNatureShapesScattered (gridSize s1) D random
                   (createEmptyGrid (gridSize s1)) of
              Inl e \<Rightarrow> Inl e
            | Inr g \<Rightarrow> Inr (s1\<lparr>grid := g, screen := drawGrid (gridSize s1) g,
                               lastResetTime := timestamp\<rparr>))
      else Inr s1)"

definition loopA :: "double_ops \<Rightarrow> real \<Rightarrow> (nat \<Rightarrow> real) \<Rightarrow> simA \<Rightarrow> js_error + simA" where
  "loopA D timestamp random s =
     (if running s
      then (let delta = dsub D timestamp (lastStepTime s);
                s1 = (if delta \<ge> speedMs s then tickA timestamp s else s)
            in resetA D timestamp random s1)
      else Inr s)"

text \<open>
  The click handler receives the cell \<open>(gridX, gridY)\<close> that \<^verbatim>\<open>Math.floor\<close> computed from
  the pointer position.
\<close>

definition clickA :: "int \<Rightarrow> int \<Rightarrow> simA \<Rightarrow> simA" where
  "clickA gridX gridY s =
     (if gridX \<ge> 0 \<and> gridX < int (gridSize s) \<and> gridY \<ge> 0 \<and> gridY < int (gridSize s)
      then s\<lparr>ripples := spawnRipple gridX gridY (ripples s)\<rparr>
      else s)"

definition resizeCanvas :: "'a sim_scheme \<Rightarrow> 'a sim_scheme" where
  "resizeCanvas s = s\<lparr>screen := drawGrid (gridSize s) (grid s)\<rparr>"

datatype eventA = ClickA int int | FrameA real "nat \<Rightarrow> real" | ResizeA

fun stepA :: "double_ops \<Rightarrow> eventA \<Rightarrow> simA \<Rightarrow> js_error + simA" where
  "stepA D (ClickA gridX gridY) s = Inr (clickA gridX gridY s)"
| "stepA D (FrameA timestamp random) s = loopA D timestamp random s"
| "stepA D ResizeA s = Inr (resizeCanvas s)"

text \<open>The states variant A reaches: after \<^verbatim>\<open>init()\<close>, and after every event handled without error.\<close>

inductive reachableA :: "double_ops \<Rightarrow> simA \<Rightarrow> bool" for D :: double_ops where
  reachA_init: "initA now = Inr s \<Longrightarrow> reachableA D s"
| reachA_step: "reachableA D s \<Longrightarrow> stepA D e s = Inr s' \<Longrightarrow> reachableA D s'"

subsection \<open>Variant B\<close>

definition initB :: sim where
  "initB = \<lparr>gridSize = 50, grid = createEmptyGrid 50, running = False, speedMs = 120,
             lastStepTime = 0, screen = drawGrid 50 (createEmptyGrid 50)\<rparr>"

definition loopB :: "double_ops \<Rightarrow> real \<Rightarrow> sim \<Rightarrow> sim" where
  "loopB D timestamp s =
     (if running s
      then (let delta = dsub D timestamp (lastStepTime s)
            in if delta \<ge> speedMs s
               then (let g = nextGenerationB (gridSize s) (grid s)
                     in s\<lparr>grid := g, screen := drawGrid (gridSize s) g, lastStepTime := timestamp\<rparr>)
               else s)
      else s)"

definition startBtn_click :: "sim \<Rightarrow> sim" where
  "startBtn_click s = s\<lparr>running := True\<rparr>"

definition pauseBtn_click :: "sim \<Rightarrow> sim" where
  "pauseBtn_click s = s\<lparr>running := False\<rparr>"

definition stepBtn_click :: "sim \<Rightarrow> sim" where
  "stepBtn_click s =
     (let s1 = s\<lparr>running := False\<rparr>;
          g = nextGenerationB (gridSize s1) (grid s1)
      in s1\<lparr>grid := g, screen := drawGrid (gridSize s1) g\<rparr>)"

definition clearBtn_click :: "sim \<Rightarrow> sim" where
  "clearBtn_click s =
     (let s1 = s\<lparr>running := False\<rparr>;
          g = createEmptyGrid (gridSize s1)
      in s1\<lparr>grid := g, screen := drawGrid (gridSize s1) g\<rparr>)"

definition randomBtn_click :: "(nat \<Rightarrow> real) \<Rightarrow> sim \<Rightarrow> sim" where
  "randomBtn_click random s =
     (let g = randomizeGrid (gridSize s) random (grid s)
      in s\<lparr>grid := g, screen := drawGrid (gridSize s) g\<rparr>)"

text \<open>
  The size and speed handlers receive the number \<^verbatim>\<open>parseInt\<close> read from the control; the
  sizes on offer are positive integers.
\<close>

definition gridSizeSelect_change :: "nat \<Rightarrow> sim \<Rightarrow> sim" where
  "gridSizeSelect_change n s =
     resizeCanvas (s\<lparr>gridSize := n, grid := createEmptyGrid n\<rparr>)"

definition speedRange_input :: "real \<Rightarrow> sim \<Rightarrow> sim" where
  "speedRange_input v s = s\<lparr>speedMs := v\<rparr>"

definition clickB :: "int \<Rightarrow> int \<Rightarrow> sim \<Rightarrow> sim" where
  "clickB gridX gridY s =
     (if gridX \<ge> 0 \<and> gridX < int (gridSize s) \<and> gridY \<ge> 0 \<and> gridY < int (gridSize s)
      then (let g = setCell (grid s) gridX gridY (if cell (grid s) gridX gridY = 1 then 0 else 1)
            in s\<lparr>grid := g, screen := drawGrid (gridSize s) g\<rparr>)
      else s)"

datatype eventB =
  StartB | PauseB | StepB | ClearB | RandomB "nat \<Rightarrow> real" | GridSizeB nat | SpeedB real
  | ClickB int int | FrameB real | ResizeB

fun stepB :: "double_ops \<Rightarrow> eventB \<Rightarrow> sim \<Rightarrow> sim" where
  "stepB D StartB s = startBtn_click s"
| "stepB D PauseB s = pauseBtn_click s"
| "stepB D StepB s = stepBtn_click s"
| "stepB D ClearB s = clearBtn_click s"
| "stepB D (RandomB random) s = randomBtn_click random s"
| "stepB D (GridSizeB n) s = gridSizeSelect_change n s"
| "stepB D (SpeedB v) s = speedRange_input v s"
| "stepB D (ClickB gridX gridY) s = clickB gridX gridY s"
| "stepB D (FrameB timestamp) s = loopB D timestamp s"
| "stepB D ResizeB s = resizeCanvas s"

inductive reachableB :: "double_ops \<Rightarrow> sim \<Rightarrow> bool" for D :: double_ops where
  reachB_init: "reachableB D initB"
| reachB_step: "reachableB D s \<Longrightarrow> reachableB D (stepB D e s)"

text \<open>What every operation keeps: the grid is \<open>N \<times> N\<close> and its cells are 0 or 1.\<close>

definition grid_inv :: "nat \<Rightarrow> grid \<Rightarrow> bool" where
  "grid_inv N g \<longleftrightarrow> grid_ok N g \<and> cells01 g"

text \<open>What holds of every ripple in the active list of a grid of size \<open>N\<close>.\<close>

definition ripple_inv :: "nat \<Rightarrow> ripple \<Rightarrow> bool" where
  "ripple_inv N r \<longleftrightarrow> 0 \<le> age r \<and> age r \<le> maxAge r \<and> maxAge r = 10 \<and> inBounds N (rx r) (ry r)"

text \<open>The invariant of variant A's state.\<close>

definition invA :: "simA \<Rightarrow> bool" where
  "invA s \<longleftrightarrow> grid_inv (gridSize s) (grid s) \<and> (\<forall>r \<in> set (ripples s). ripple_inv (gridSize s) r)"

text \<open>The sequence of random draws in which \<^verbatim>\<open>Math.random()\<close> returns 0 every time.\<close>

definition zero_draws :: "nat \<Rightarrow> real" where
  "zero_draws k = 0"

text \<open>
  The operations without rounding. A double operation returns the exact result whenever
  that result is itself a double, as it is for the differences of the whole-number time
  stamps and for the products with the draw 0 that the examples below use.
\<close>

definition exact_ops :: double_ops where
  "exact_ops = \<lparr>dsub = (\<lambda>a b. a - b), dmul = (\<lambda>a b. a * b)\<rparr>"


section \<open>Properties of the grid operations\<close>

lemma grid_ok_createEmptyGrid: "grid_ok N (createEmptyGrid N)"
  by (simp add: grid_ok_def createEmptyGrid_def)

lemma cell_createEmptyGrid: "inBounds N x y \<Longrightarrow> cell (createEmptyGrid N) x y = 0"
proof -
  assume "inBounds N x y"
  then have "nat y < N" "nat x < N" by (auto simp: inBounds_def)
  then show ?thesis by (simp add: cell_def createEmptyGrid_def)
qed

lemma grid_ok_setCell: "grid_ok N g \<Longrightarrow> grid_ok N (setCell g x y v)"
proof (cases "nat y < length g")
  case True
  assume "grid_ok N g"
  with True show ?thesis
    unfolding grid_ok_def setCell_def
    by (auto dest!: set_update_subset_insert [THEN subsetD])
next
  case False
  assume "grid_ok N g"
  moreover from False have "g[nat y := (g ! nat y)[nat x := v]] = g"
    by (simp add: list_update_beyond)
  ultimately show ?thesis by (simp add: setCell_def)
qed

lemma cell_setCell:
  assumes "grid_ok N g" "inBounds N x y" "inBounds N x' y'"
  shows "cell (setCell g x y v) x' y' = (if x' = x \<and> y' = y then v else cell g x' y')"
proof -
  have ly: "nat y < length g" "nat y' < length g"
    using assms by (auto simp: grid_ok_def inBounds_def)
  have lx: "nat x < length (g ! nat y)"
    using assms ly by (auto simp: grid_ok_def inBounds_def)
  have eqy: "nat y' = nat y \<longleftrightarrow> y' = y" and eqx: "nat x' = nat x \<longleftrightarrow> x' = x"
    using assms by (auto simp: inBounds_def)
  show ?thesis
    using ly lx eqy eqx by (auto simp: cell_def setCell_def nth_list_update)
qed

lemma grid_ext:
  assumes "grid_ok N g" "grid_ok N h"
    and "\<And>x y. inBounds N x y \<Longrightarrow> cell g x y = cell h x y"
  shows "g = h"
proof (rule nth_equalityI)
  show "length g = length h" using assms by (simp add: grid_ok_def)
next
  fix i assume i: "i < length g"
  then have iN: "i < N" using assms by (simp add: grid_ok_def)
  have lg: "length (g ! i) = N" and lh: "length (h ! i) = N"
    using assms i by (auto simp: grid_ok_def)
  show "g ! i = h ! i"
  proof (rule nth_equalityI)
    show "length (g ! i) = length (h ! i)" using lg lh by simp
  next
    fix j assume "j < length (g ! i)"
    then have "inBounds N (int j) (int i)" using lg iN by (simp add: inBounds_def)
    from assms(3) [OF this] show "g ! i ! j = h ! i ! j" by (simp add: cell_def)
  qed
qed

lemma fold_nested:
  "fold (\<lambda>y g. fold (\<lambda>x g. f x y g) xs g) ys g
     = fold (\<lambda>(x, y) g. f x y g) (concat (map (\<lambda>y. map (\<lambda>x. (x, y)) xs) ys)) g"
proof (induction ys arbitrary: g)
  case Nil
  show ?case by simp
next
  case (Cons y ys)
  have "fold (\<lambda>x g. f x y g) xs g = fold (\<lambda>(x, y) g. f x y g) (map (\<lambda>x. (x, y)) xs) g" for g
    by (simp add: fold_map comp_def)
  then show ?case using Cons.IH by simp
qed

lemma fold_guarded:
  "fold (\<lambda>p g. if c p then f p g else g) ps g = fold f (filter c ps) g"
  by (induction ps arbitrary: g) simp_all

lemma grid_ok_writes: "grid_ok N g \<Longrightarrow> grid_ok N (writes ws g)"
  unfolding writes_def
  by (induction ws arbitrary: g) (auto simp: grid_ok_setCell)

lemma cell_writes_miss:
  assumes "grid_ok N g" "inBounds N x y"
    and "\<forall>(x', y', v) \<in> set ws. inBounds N x' y'"
    and "\<forall>(x', y', v) \<in> set ws. \<not> (x' = x \<and> y' = y)"
  shows "cell (writes ws g) x y = cell g x y"
  using assms unfolding writes_def
proof (induction ws arbitrary: g)
  case Nil
  show ?case by simp
next
  case (Cons w ws)
  obtain x' y' v where w: "w = (x', y', v)" by (cases w)
  have "cell (fold (\<lambda>(x, y, v) g. setCell g x y v) ws (setCell g x' y' v)) x y
          = cell (setCell g x' y' v) x y"
    using Cons.prems by (intro Cons.IH) (auto simp: grid_ok_setCell)
  also have "\<dots> = cell g x y"
    using Cons.prems w by (subst cell_setCell [where N = N]) auto
  finally show ?case using w by simp
qed

lemma cell_writes_hit:
  assumes "grid_ok N g" "inBounds N x y"
    and "\<forall>(x', y', v') \<in> set ws. inBounds N x' y'"
    and "\<forall>(x', y', v') \<in> set ws. x' = x \<and> y' = y \<longrightarrow> v' = v"
    and "\<exists>v'. (x, y, v') \<in> set ws"
  shows "cell (writes ws g) x y = v"
  using assms unfolding writes_def
proof (induction ws arbitrary: g)
  case Nil
  then show ?case by simp
next
  case (Cons w ws)
  obtain x' y' v' where w: "w = (x', y', v')" by (cases w)
  have ok: "grid_ok N (setCell g x' y' v')"
    using Cons.prems by (simp add: grid_ok_setCell)
  show ?case
  proof (cases "\<exists>v'. (x, y, v') \<in> set ws")
    case True
    have "cell (fold (\<lambda>(x, y, v) g. setCell g x y v) ws (setCell g x' y' v')) x y = v"
      using Cons.prems ok True by (intro Cons.IH) auto
    then show ?thesis using w by simp
  next
    case False
    then have miss: "\<forall>(x', y', v) \<in> set ws. \<not> (x' = x \<and> y' = y)" by auto
    from False Cons.prems(5) w have here: "x' = x" "y' = y" by auto
    with Cons.prems(4) w have v: "v' = v" by auto
    have "cell (writes ws (setCell g x' y' v')) x y = cell (setCell g x' y' v') x y"
      using Cons.prems ok miss by (intro cell_writes_miss [where N = N]) auto
    also have "\<dots> = v"
      using Cons.prems here v by (subst cell_setCell [where N = N]) auto
    finally show ?thesis using w by (simp add: writes_def)
  qed
qed

lemma countNeighbors_unfold:
  "countNeighbors N g x y = sum_list (map (\<lambda>(nx, ny). nb N g nx ny) (around x y))"
  by (simp add: countNeighbors_def nb_def around_def Let_def ac_simps)

lemma distinct_around: "distinct (around x y)"
  by (simp add: around_def)

lemma set_around:
  "set (around x y) = {(nx, ny). \<bar>nx - x\<bar> \<le> 1 \<and> \<bar>ny - y\<bar> \<le> 1 \<and> (nx, ny) \<noteq> (x, y)}"
  (is "?L = ?R")
proof (rule set_eqI)
  fix p :: "int \<times> int"
  obtain nx ny where p: "p = (nx, ny)" by (cases p)
  show "p \<in> ?L \<longleftrightarrow> p \<in> ?R"
  proof
    assume "p \<in> ?L"
    then show "p \<in> ?R" unfolding around_def by auto
  next
    assume "p \<in> ?R"
    then have a: "\<bar>nx - x\<bar> \<le> 1" and b: "\<bar>ny - y\<bar> \<le> 1" and c: "nx \<noteq> x \<or> ny \<noteq> y"
      using p by auto
    from a have a': "nx = x - 1 \<or> nx = x \<or> nx = x + 1" by arith
    from b have b': "ny = y - 1 \<or> ny = y \<or> ny = y + 1" by arith
    from a' b' c show "p \<in> ?L" unfolding around_def p by auto
  qed
qed

lemma liveNeighbors_filter:
  "liveNeighbors N g x y
     = set (filter (\<lambda>(nx, ny). inBounds N nx ny \<and> cell g nx ny = 1) (around x y))"
  unfolding liveNeighbors_def set_filter set_around by auto

lemma cell01:
  assumes "grid_ok N g" "cells01 g" "inBounds N x y"
  shows "cell g x y = 0 \<or> cell g x y = 1"
proof -
  have "nat y < length g" using assms by (auto simp: grid_ok_def inBounds_def)
  then have row: "g ! nat y \<in> set g" by simp
  then have "nat x < length (g ! nat y)" using assms by (auto simp: grid_ok_def inBounds_def)
  then have "g ! nat y ! nat x \<in> set (g ! nat y)" by simp
  with row assms(2) show ?thesis unfolding cells01_def cell_def by blast
qed

lemma nb_indicator:
  assumes "grid_ok N g" "cells01 g"
  shows "nb N g nx ny = (if inBounds N nx ny \<and> cell g nx ny = 1 then 1 else 0)"
  using cell01 [OF assms, of nx ny] by (auto simp: nb_def)

lemma length_filter_sum_list:
  "int (length (filter P xs)) = sum_list (map (\<lambda>p. if P p then 1 else 0) xs)"
  by (induction xs) simp_all

lemma countNeighbors_filter:
  assumes "grid_ok N g" "cells01 g"
  shows "countNeighbors N g x y
           = int (length (filter (\<lambda>(nx, ny). inBounds N nx ny \<and> cell g nx ny = 1) (around x y)))"
proof -
  have "(\<lambda>(nx, ny). nb N g nx ny)
          = (\<lambda>p. if (case p of (nx, ny) \<Rightarrow> inBounds N nx ny \<and> cell g nx ny = 1) then 1 else 0)"
    by (rule ext) (simp add: nb_indicator [OF assms] case_prod_unfold)
  then show ?thesis
    unfolding countNeighbors_unfold length_filter_sum_list by simp
qed

lemma countNeighbors_card:
  assumes "grid_ok N g" "cells01 g"
  shows "countNeighbors N g x y = int (card (liveNeighbors N g x y))"
proof -
  have "card (liveNeighbors N g x y)
          = length (filter (\<lambda>(nx, ny). inBounds N nx ny \<and> cell g nx ny = 1) (around x y))"
    unfolding liveNeighbors_filter
    by (rule distinct_card) (simp add: distinct_around)
  then show ?thesis
    by (simp add: countNeighbors_filter [OF assms])
qed

lemma countNeighbors_range:
  assumes "grid_ok N g" "cells01 g"
  shows "0 \<le> countNeighbors N g x y \<and> countNeighbors N g x y \<le> 8"
proof -
  have "length (filter (\<lambda>(nx, ny). inBounds N nx ny \<and> cell g nx ny = 1) (around x y))
          \<le> length (around x y)"
    by (rule length_filter_le)
  also have "length (around x y) = 8" by (simp add: around_def)
  finally show ?thesis by (simp add: countNeighbors_filter [OF assms])
qed

lemma countNeighborsB_eq: "countNeighborsB N g x y = countNeighbors N g x y"
  unfolding countNeighborsB_def countNeighbors_def inBounds_def by (rule refl)

lemma nextGenerationB_eq: "nextGenerationB N g = nextGeneration N g"
proof -
  have "(let neighbors = countNeighborsB N g x y; isAlive = (cell g x y = 1)
         in if isAlive \<and> (neighbors = 2 \<or> neighbors = 3) then setCell newGrid x y 1
            else if \<not> isAlive \<and> neighbors = 3 then setCell newGrid x y 1
            else setCell newGrid x y 0)
        = setCell newGrid x y (nextCell N g x y)" for x y newGrid
    by (simp add: nextCell_def Let_def countNeighborsB_eq)
  then show ?thesis
    by (simp add: nextGenerationB_def nextGeneration_def)
qed

lemma set_allCells: "set (allCells N) = {(x, y). x < N \<and> y < N}"
  by (auto simp: allCells_def)

lemma nextGeneration_writes:
  "nextGeneration N g
     = writes (map (\<lambda>(x, y). (int x, int y, nextCell N g (int x) (int y))) (allCells N))
         (createEmptyGrid N)"
proof -
  have "nextGeneration N g
          = fold (\<lambda>(x, y) newGrid. setCell newGrid (int x) (int y) (nextCell N g (int x) (int y)))
              (allCells N) (createEmptyGrid N)"
    unfolding nextGeneration_def allCells_def by (rule fold_nested)
  also have "\<dots> = writes (map (\<lambda>(x, y). (int x, int y, nextCell N g (int x) (int y))) (allCells N))
                     (createEmptyGrid N)"
    unfolding writes_def fold_map by (simp add: comp_def case_prod_unfold)
  finally show ?thesis .
qed

lemma grid_ok_nextGeneration: "grid_ok N (nextGeneration N g)"
  unfolding nextGeneration_writes
  by (rule grid_ok_writes) (rule grid_ok_createEmptyGrid)

lemma cell_nextGeneration:
  assumes "inBounds N x y"
  shows "cell (nextGeneration N g) x y = nextCell N g x y"
  unfolding nextGeneration_writes
proof (rule cell_writes_hit [where N = N])
  show "grid_ok N (createEmptyGrid N)" by (rule grid_ok_createEmptyGrid)
  show "inBounds N x y" by (rule assms)
  show "\<forall>(x', y', v') \<in> set (map (\<lambda>(x, y). (int x, int y, nextCell N g (int x) (int y))) (allCells N)).
          inBounds N x' y'"
    by (auto simp: set_allCells inBounds_def)
  show "\<forall>(x', y', v') \<in> set (map (\<lambda>(x, y). (int x, int y, nextCell N g (int x) (int y))) (allCells N)).
          x' = x \<and> y' = y \<longrightarrow> v' = nextCell N g x y"
    by (auto simp: set_allCells)
  have mem: "(nat x, nat y) \<in> set (allCells N)"
    using assms by (auto simp: set_allCells inBounds_def)
  have "int (nat x) = x" "int (nat y) = y" using assms by (auto simp: inBounds_def)
  then have "(x, y, nextCell N g x y)
               = (\<lambda>(x, y). (int x, int y, nextCell N g (int x) (int y))) (nat x, nat y)"
    by simp
  with mem have "(x, y, nextCell N g x y)
               \<in> (\<lambda>(x, y). (int x, int y, nextCell N g (int x) (int y))) ` set (allCells N)"
    by (rule image_eqI [rotated])
  then show "\<exists>v'. (x, y, v') \<in> set (map (\<lambda>(x, y). (int x, int y, nextCell N g (int x) (int y))) (allCells N))"
    unfolding set_map by (rule exI)
qed

lemma cells01_iff:
  assumes "grid_ok N g"
  shows "cells01 g \<longleftrightarrow> (\<forall>x y. inBounds N x y \<longrightarrow> cell g x y = 0 \<or> cell g x y = 1)"
proof
  assume "cells01 g"
  then show "\<forall>x y. inBounds N x y \<longrightarrow> cell g x y = 0 \<or> cell g x y = 1"
    using cell01 [OF assms] by blast
next
  assume R: "\<forall>x y. inBounds N x y \<longrightarrow> cell g x y = 0 \<or> cell g x y = 1"
  show "cells01 g"
    unfolding cells01_def
  proof (intro ballI)
    fix row c assume row: "row \<in> set g" and c: "c \<in> set row"
    from row obtain i where i: "i < length g" "row = g ! i" by (auto simp: in_set_conv_nth)
    from c obtain j where j: "j < length row" "c = row ! j" by (auto simp: in_set_conv_nth)
    have "inBounds N (int j) (int i)"
      using assms i j row by (auto simp: grid_ok_def inBounds_def)
    with R have "cell g (int j) (int i) = 0 \<or> cell g (int j) (int i) = 1" by blast
    then show "c = 0 \<or> c = 1" using i j by (simp add: cell_def)
  qed
qed

lemma nextCell01: "nextCell N g x y = 0 \<or> nextCell N g x y = 1"
  by (simp add: nextCell_def Let_def)

lemma cells01_nextGeneration: "cells01 (nextGeneration N g)"
  unfolding cells01_iff [OF grid_ok_nextGeneration]
  by (simp add: cell_nextGeneration nextCell01)

lemma countNeighbors_le_inBounds:
  assumes "grid_ok N g" "cells01 g"
  shows "countNeighbors N g x y
           \<le> int (length (filter (\<lambda>(nx, ny). inBounds N nx ny) (around x y)))"
proof -
  have "filter (\<lambda>(nx, ny). inBounds N nx ny \<and> cell g nx ny = 1) (around x y)
          = filter (\<lambda>(nx, ny). cell g nx ny = 1) (filter (\<lambda>(nx, ny). inBounds N nx ny) (around x y))"
    by (simp add: case_prod_unfold conj_commute)
  then have "length (filter (\<lambda>(nx, ny). inBounds N nx ny \<and> cell g nx ny = 1) (around x y))
          \<le> length (filter (\<lambda>(nx, ny). inBounds N nx ny) (around x y))"
    by (simp only: length_filter_le)
  then show ?thesis by (simp add: countNeighbors_filter [OF assms])
qed

lemma border_left: "length (filter (\<lambda>(nx, ny). inBounds N nx ny) (around 0 y)) \<le> 5"
  by (simp add: around_def inBounds_def)

lemma border_top: "length (filter (\<lambda>(nx, ny). inBounds N nx ny) (around x 0)) \<le> 5"
  by (simp add: around_def inBounds_def)

lemma border_right: "length (filter (\<lambda>(nx, ny). inBounds N nx ny) (around (int N - 1) y)) \<le> 5"
  by (simp add: around_def inBounds_def)

lemma border_bottom: "length (filter (\<lambda>(nx, ny). inBounds N nx ny) (around x (int N - 1))) \<le> 5"
  by (simp add: around_def inBounds_def)

lemma countNeighbors_border:
  assumes "grid_ok N g" "cells01 g"
    and "x = 0 \<or> y = 0 \<or> x = int N - 1 \<or> y = int N - 1"
  shows "countNeighbors N g x y \<le> 5"
proof -
  have "length (filter (\<lambda>(nx, ny). inBounds N nx ny) (around x y)) \<le> 5"
    using assms(3) border_left border_top border_right border_bottom by blast
  with countNeighbors_le_inBounds [OF assms(1,2), of x y] show ?thesis by simp
qed

section \<open>Neighbour counter and generation stepper\<close>

text \<open>
  Claim C2. On a well-shaped grid of 0/1 cells, \<open>countNeighbors\<close> returns the number of
  live neighbours of \<open>(x, y)\<close>: the alive cells among the eight surrounding positions that
  lie inside \<open>[0, N) \<times> [0, N)\<close>. The cell itself is never among them, no position outside
  the grid is, the result lies between 0 and 8, and for a cell on the border of the grid it
  is at most 5. The function only returns the count; it has no grid to return, so the grid
  is as it was.
\<close>

theorem countNeighbors_counts_live_neighbors:
  assumes "grid_ok N g" and "cells01 g"
  shows "countNeighbors N g x y = int (card (liveNeighbors N g x y))
       \<and> 0 \<le> countNeighbors N g x y \<and> countNeighbors N g x y \<le> 8
       \<and> (x, y) \<notin> liveNeighbors N g x y
       \<and> (\<forall>(nx, ny) \<in> liveNeighbors N g x y. inBounds N nx ny)
       \<and> (x = 0 \<or> y = 0 \<or> x = int N - 1 \<or> y = int N - 1 \<longrightarrow> countNeighbors N g x y \<le> 5)"
proof -
  have "(x, y) \<notin> liveNeighbors N g x y"
    by (simp add: liveNeighbors_def)
  moreover have "\<forall>(nx, ny) \<in> liveNeighbors N g x y. inBounds N nx ny"
    by (auto simp: liveNeighbors_def)
  ultimately show ?thesis
    using countNeighbors_card [OF assms] countNeighbors_range [OF assms]
      countNeighbors_border [OF assms]
    by blast
qed

theorem countNeighbors_counts_live_neighbors_witness:
  "grid_ok 3 [[1, 1, 0], [0, 1, 0], [0, 0, 1]] \<and> cells01 [[1, 1, 0], [0, 1, 0], [0, 0, 1]]
   \<and> card (liveNeighbors 3 [[1, 1, 0], [0, 1, 0], [0, 0, 1]] 1 1) = 3
   \<and> countNeighbors 3 [[1, 1, 0], [0, 1, 0], [0, 0, 1]] 0 0 \<le> 5"
proof -
  let ?g = "[[1, 1, 0], [0, 1, 0], [0, 0, 1 :: int]]"
  have ok: "grid_ok 3 ?g" by (simp add: grid_ok_def)
  have c01: "cells01 ?g" by (simp add: cells01_def)
  have v: "countNeighbors 3 ?g 1 1 = 3"
    by (simp add: countNeighbors_def inBounds_def cell_def Let_def)
  from countNeighbors_counts_live_neighbors [OF ok c01, of 1 1] v
  have "card (liveNeighbors 3 ?g 1 1) = 3" by simp
  moreover from countNeighbors_counts_live_neighbors [OF ok c01, of 0 0]
  have "countNeighbors 3 ?g 0 0 \<le> 5" by simp
  ultimately show ?thesis using ok c01 by simp
qed

text \<open>
  Claim C1. One generation step on a well-shaped grid \<open>g\<close> of 0/1 cells gives a grid of the
  same dimensions in which a cell is alive (1) exactly when it was alive in \<open>g\<close> with 2 or
  3 live neighbours, or dead in \<open>g\<close> with exactly 3 live neighbours, and is dead (0)
  otherwise. The stepper of variant B computes the same grid as the stepper of variant A.
\<close>

theorem nextGeneration_game_of_life_rule:
  assumes "grid_ok N g" and "cells01 g"
  shows "grid_ok N (nextGeneration N g)
       \<and> (\<forall>x y. inBounds N x y \<longrightarrow>
             cell (nextGeneration N g) x y =
               (if (cell g x y = 1 \<and> (card (liveNeighbors N g x y) = 2
                                        \<or> card (liveNeighbors N g x y) = 3))
                   \<or> (cell g x y = 0 \<and> card (liveNeighbors N g x y) = 3)
                then 1 else 0))
       \<and> nextGenerationB N g = nextGeneration N g"
proof -
  have "cell (nextGeneration N g) x y =
          (if (cell g x y = 1 \<and> (card (liveNeighbors N g x y) = 2
                                   \<or> card (liveNeighbors N g x y) = 3))
              \<or> (cell g x y = 0 \<and> card (liveNeighbors N g x y) = 3)
           then 1 else 0)" if inb: "inBounds N x y" for x y
  proof -
    have c: "cell g x y = 0 \<or> cell g x y = 1" by (rule cell01 [OF assms inb])
    have n: "countNeighbors N g x y = int (card (liveNeighbors N g x y))"
      by (rule countNeighbors_card [OF assms])
    have "nextCell N g x y =
          (if (cell g x y = 1 \<and> (card (liveNeighbors N g x y) = 2
                                   \<or> card (liveNeighbors N g x y) = 3))
              \<or> (cell g x y = 0 \<and> card (liveNeighbors N g x y) = 3)
           then 1 else 0)"
      using c unfolding nextCell_def n Let_def by auto
    then show ?thesis by (simp add: cell_nextGeneration [OF inb])
  qed
  then show ?thesis
    using grid_ok_nextGeneration [of N g] nextGenerationB_eq [of N g] by blast
qed

theorem nextGeneration_game_of_life_rule_witness:
  "grid_ok 3 [[0, 0, 0], [1, 1, 1], [0, 0, 0]] \<and> cells01 [[0, 0, 0], [1, 1, 1], [0, 0, 0]]
   \<and> inBounds 3 1 0
   \<and> cell [[0, 0, 0], [1, 1, 1], [0, 0, 0]] 1 0 = 0
   \<and> card (liveNeighbors 3 [[0, 0, 0], [1, 1, 1], [0, 0, 0]] 1 0) = 3
   \<and> cell (nextGeneration 3 [[0, 0, 0], [1, 1, 1], [0, 0, 0]]) 1 0 = 1"
proof -
  let ?g = "[[0, 0, 0], [1, 1, 1], [0, 0, 0 :: int]]"
  have ok: "grid_ok 3 ?g" by (simp add: grid_ok_def)
  have c01: "cells01 ?g" by (simp add: cells01_def)
  have inb: "inBounds 3 1 0" by (simp add: inBounds_def)
  have c: "cell ?g 1 0 = 0" by (simp add: cell_def)
  have "countNeighbors 3 ?g 1 0 = 3"
    by (simp add: countNeighbors_def inBounds_def cell_def Let_def)
  with countNeighbors_card [OF ok c01, of 1 0]
  have k: "card (liveNeighbors 3 ?g 1 0) = 3" by simp
  from nextGeneration_game_of_life_rule [OF ok c01] inb
  have "cell (nextGeneration 3 ?g) 1 0 =
          (if (cell ?g 1 0 = 1 \<and> (card (liveNeighbors 3 ?g 1 0) = 2
                                   \<or> card (liveNeighbors 3 ?g 1 0) = 3))
              \<or> (cell ?g 1 0 = 0 \<and> card (liveNeighbors 3 ?g 1 0) = 3)
           then 1 else 0)"
    by blast
  then have "cell (nextGeneration 3 ?g) 1 0 = 1" using c k by simp
  then show ?thesis using ok c01 inb c k by simp
qed

section \<open>Painting cells alive\<close>

lemma grid_ok_setCellAlive: "grid_ok N g \<Longrightarrow> grid_ok N (setCellAlive N g x y)"
  by (simp add: setCellAlive_def grid_ok_setCell)

lemma cell_setCellAlive:
  assumes "grid_ok N g" "inBounds N x' y'"
  shows "cell (setCellAlive N g x y) x' y' = (if x' = x \<and> y' = y then 1 else cell g x' y')"
proof (cases "inBounds N x y")
  case True
  then show ?thesis
    by (simp add: setCellAlive_def cell_setCell [OF assms(1) True assms(2)])
next
  case False
  then have "\<not> (x' = x \<and> y' = y)" using assms(2) by auto
  with False show ?thesis by (auto simp: setCellAlive_def)
qed

lemma grid_ok_paint: "grid_ok N g \<Longrightarrow> grid_ok N (paint N ps g)"
  unfolding paint_def
  by (induction ps arbitrary: g) (auto simp: grid_ok_setCellAlive)

lemma cell_paint:
  assumes "grid_ok N g" "inBounds N x y"
  shows "cell (paint N ps g) x y = (if (x, y) \<in> set ps then 1 else cell g x y)"
  using assms(1) unfolding paint_def
proof (induction ps arbitrary: g)
  case Nil
  show ?case by simp
next
  case (Cons p ps)
  obtain a b where p: "p = (a, b)" by (cases p)
  have ok: "grid_ok N (setCellAlive N g a b)"
    using Cons.prems by (rule grid_ok_setCellAlive)
  have "cell (fold (\<lambda>(x, y) g. setCellAlive N g x y) ps (setCellAlive N g a b)) x y
          = (if (x, y) \<in> set ps then 1 else cell (setCellAlive N g a b) x y)"
    by (rule Cons.IH [OF ok])
  also have "cell (setCellAlive N g a b) x y = (if x = a \<and> y = b then 1 else cell g x y)"
    by (rule cell_setCellAlive [OF Cons.prems assms(2)])
  finally show ?case
    using p by auto
qed

lemma paint_append: "paint N (ps @ qs) g = paint N qs (paint N ps g)"
  by (simp add: paint_def)

lemma cells01_setCell:
  assumes "cells01 g" "v = 0 \<or> v = 1"
  shows "cells01 (setCell g x y v)"
  unfolding cells01_def setCell_def
proof (intro ballI)
  fix row c
  assume row: "row \<in> set (g[nat y := (g ! nat y)[nat x := v]])" and c: "c \<in> set row"
  have "row \<in> set g \<or> (row = (g ! nat y)[nat x := v] \<and> nat y < length g)"
  proof (cases "nat y < length g")
    case True
    with row set_update_subset_insert [of g "nat y" "(g ! nat y)[nat x := v]"]
    show ?thesis by auto
  next
    case False
    then have "g[nat y := (g ! nat y)[nat x := v]] = g" by (simp add: list_update_beyond)
    with row show ?thesis by simp
  qed
  then show "c = 0 \<or> c = 1"
  proof
    assume "row \<in> set g"
    with c assms(1) show ?thesis unfolding cells01_def by blast
  next
    assume r: "row = (g ! nat y)[nat x := v] \<and> nat y < length g"
    then have "g ! nat y \<in> set g" by simp
    moreover from c r have "c \<in> insert v (set (g ! nat y))"
      using set_update_subset_insert by fastforce
    ultimately show ?thesis using assms unfolding cells01_def by blast
  qed
qed

lemma cells01_setCellAlive: "cells01 g \<Longrightarrow> cells01 (setCellAlive N g x y)"
  by (simp add: setCellAlive_def cells01_setCell)

lemma cells01_paint: "cells01 g \<Longrightarrow> cells01 (paint N ps g)"
  unfolding paint_def
  by (induction ps arbitrary: g) (auto simp: cells01_setCellAlive)

lemma cells01_createEmptyGrid: "cells01 (createEmptyGrid N)"
  by (simp add: cells01_def createEmptyGrid_def)

section \<open>Pattern stamping\<close>

lemma set_box_nat:
  "set (concat (map (\<lambda>y. map (\<lambda>x. (x, y)) [0..<w]) [0..<h])) = {(x, y). x < w \<and> y < h}"
  by auto

lemma stampPattern_paint:
  "stampPattern N (row0 # rest) offsetX offsetY g
     = Inr (paint N (stampCells (row0 # rest) (length row0) offsetX offsetY) g)"
proof -
  let ?p = "row0 # rest"
  let ?c = "\<lambda>(x, y). x < length (?p ! y) \<and> ?p ! y ! x = CHR ''1''"
  let ?cells = "concat (map (\<lambda>y. map (\<lambda>x. (x, y)) [0..<length row0]) [0..<length ?p])"
  have "stampPattern N ?p offsetX offsetY g
          = Inr (fold (\<lambda>y g. fold (\<lambda>x g.
                   if ?c (x, y) then setCellAlive N g (offsetX + int x) (offsetY + int y) else g)
                   [0..<length row0] g) [0..<length ?p] g)"
    by (simp only: stampPattern_def list.case Let_def setCellAlive_def inBounds_def prod.case)
  also have "fold (\<lambda>y g. fold (\<lambda>x g.
                   if ?c (x, y) then setCellAlive N g (offsetX + int x) (offsetY + int y) else g)
                   [0..<length row0] g) [0..<length ?p] g
          = fold (\<lambda>(x, y) g.
                   if ?c (x, y) then setCellAlive N g (offsetX + int x) (offsetY + int y) else g)
              ?cells g"
    by (rule fold_nested)
  also have "(\<lambda>(x, y) g.
                   if ?c (x, y) then setCellAlive N g (offsetX + int x) (offsetY + int y) else g)
          = (\<lambda>p g. if ?c p then (\<lambda>(x, y) g. setCellAlive N g (offsetX + int x) (offsetY + int y)) p g
                     else g)"
    by (auto simp: fun_eq_iff)
  also have "fold \<dots> ?cells g
          = fold (\<lambda>(x, y) g. setCellAlive N g (offsetX + int x) (offsetY + int y))
              (filter ?c ?cells) g"
    by (rule fold_guarded)
  also have "\<dots> = paint N (stampCells ?p (length row0) offsetX offsetY) g"
    unfolding paint_def stampCells_def fold_map
    by (simp add: comp_def case_prod_unfold)
  finally show ?thesis .
qed

lemma set_stampCells:
  assumes "rectangular pattern"
  shows "(x, y) \<in> set (stampCells pattern (length (hd pattern)) offsetX offsetY)
           \<longleftrightarrow> patternAlive pattern (x - offsetX) (y - offsetY)"
proof
  assume "(x, y) \<in> set (stampCells pattern (length (hd pattern)) offsetX offsetY)"
  then obtain px py where m: "px < length (hd pattern)" "py < length pattern"
      "px < length (pattern ! py)" "pattern ! py ! px = CHR ''1''"
      "x = offsetX + int px" "y = offsetY + int py"
    unfolding stampCells_def by auto
  then show "patternAlive pattern (x - offsetX) (y - offsetY)"
    by (simp add: patternAlive_def)
next
  assume a: "patternAlive pattern (x - offsetX) (y - offsetY)"
  let ?px = "nat (x - offsetX)" and ?py = "nat (y - offsetY)"
  from a have m: "?py < length pattern" "?px < length (pattern ! ?py)"
      "pattern ! ?py ! ?px = CHR ''1''" "x = offsetX + int ?px" "y = offsetY + int ?py"
    by (auto simp: patternAlive_def)
  from m(1) have "pattern ! ?py \<in> set pattern" by simp
  with assms have "length (pattern ! ?py) = length (hd pattern)"
    unfolding rectangular_def by blast
  with m(2) have w: "?px < length (hd pattern)" by simp
  have "(?px, ?py) \<in> set (filter (\<lambda>(x, y). x < length (pattern ! y) \<and> pattern ! y ! x = CHR ''1'')
         (concat (map (\<lambda>y. map (\<lambda>x. (x, y)) [0..<length (hd pattern)]) [0..<length pattern])))"
    using m(1,2,3) w unfolding set_filter set_box_nat by simp
  then have "(\<lambda>(x, y). (offsetX + int x, offsetY + int y)) (?px, ?py)
               \<in> set (stampCells pattern (length (hd pattern)) offsetX offsetY)"
    unfolding stampCells_def set_map by (rule imageI)
  then show "(x, y) \<in> set (stampCells pattern (length (hd pattern)) offsetX offsetY)"
    using m(4,5) by simp
qed

text \<open>
  Claim C6. Stamping a rectangular pattern at an offset returns normally, keeps the grid's
  shape, and changes the grid only by setting alive the in-bounds cells \<open>(x, y)\<close> whose
  pattern position \<open>(x - offsetX, y - offsetY)\<close> is marked alive. Every other cell keeps
  its value: cells under a dead mark, cells outside the pattern, and alive marks that fall
  outside the grid are skipped without error.
\<close>

theorem stampPattern_additive:
  assumes "grid_ok N g" and "rectangular pattern"
  shows "\<exists>g'. stampPattern N pattern offsetX offsetY g = Inr g' \<and> grid_ok N g'
           \<and> (\<forall>x y. inBounds N x y \<longrightarrow>
                 cell g' x y = (if patternAlive pattern (x - offsetX) (y - offsetY) then 1
                                else cell g x y))"
proof -
  from assms(2) obtain row0 rest where p: "pattern = row0 # rest"
    unfolding rectangular_def by (cases pattern) auto
  let ?g' = "paint N (stampCells pattern (length (hd pattern)) offsetX offsetY) g"
  have "stampPattern N pattern offsetX offsetY g = Inr ?g'"
    unfolding p by (simp add: stampPattern_paint)
  moreover have "grid_ok N ?g'" using assms(1) by (rule grid_ok_paint)
  moreover have "cell ?g' x y = (if patternAlive pattern (x - offsetX) (y - offsetY) then 1
                                else cell g x y)" if "inBounds N x y" for x y
    by (simp add: cell_paint [OF assms(1) that] set_stampCells [OF assms(2)])
  ultimately show ?thesis by blast
qed

theorem stampPattern_additive_witness:
  "grid_ok 3 [[0, 0, 0], [0, 1, 0], [0, 0, 0]] \<and> rectangular [''01'', ''10'']
   \<and> (\<exists>g'. stampPattern 3 [''01'', ''10''] 2 1 [[0, 0, 0], [0, 1, 0], [0, 0, 0]] = Inr g'
          \<and> cell g' 2 2 = 1 \<and> cell g' 1 1 = 1 \<and> cell g' 2 1 = 0)"
proof -
  let ?g = "[[0, 0, 0], [0, 1, 0], [0, 0, 0 :: int]]"
  let ?p = "[''01'', ''10'']"
  have ok: "grid_ok 3 ?g" by (simp add: grid_ok_def)
  have rect: "rectangular ?p" by (simp add: rectangular_def)
  from stampPattern_additive [OF ok rect, of 2 1]
  obtain g' where g': "stampPattern 3 ?p 2 1 ?g = Inr g'"
    and c: "\<forall>x y. inBounds 3 x y \<longrightarrow>
                 cell g' x y = (if patternAlive ?p (x - 2) (y - 1) then 1 else cell ?g x y)"
    by blast
  have "inBounds 3 2 2" "inBounds 3 1 1" "inBounds 3 2 1" by (simp_all add: inBounds_def)
  with c have "cell g' 2 2 = (if patternAlive ?p (2 - 2) (2 - 1) then 1 else cell ?g 2 2)"
    and "cell g' 1 1 = (if patternAlive ?p (1 - 2) (1 - 1) then 1 else cell ?g 1 1)"
    and "cell g' 2 1 = (if patternAlive ?p (2 - 2) (1 - 1) then 1 else cell ?g 2 1)"
    by blast+
  then have "cell g' 2 2 = 1 \<and> cell g' 1 1 = 1 \<and> cell g' 2 1 = 0"
    by (simp add: patternAlive_def cell_def)
  with g' ok rect show ?thesis by blast
qed

section \<open>Ripple engine\<close>

lemma inRing_int:
  "inRing dx dy radius \<longleftrightarrow>
     (2 * radius - 1 \<le> 0 \<or> (2 * radius - 1) * (2 * radius - 1) \<le> 4 * (dx * dx + dy * dy))
     \<and> 0 \<le> 2 * radius + 1
     \<and> 4 * (dx * dx + dy * dy) \<le> (2 * radius + 1) * (2 * radius + 1)"
proof -
  define d where "d = dx * dx + dy * dy"
  have d0: "0 \<le> d" by (simp add: d_def)
  have lower: "real_of_int radius - 0.5 \<le> sqrt (real_of_int d)
                 \<longleftrightarrow> 2 * radius - 1 \<le> 0 \<or> (2 * radius - 1) * (2 * radius - 1) \<le> 4 * d"
  proof (cases "2 * radius - 1 \<le> 0")
    case True
    then have "real_of_int radius - 0.5 \<le> 0" by simp
    also have "0 \<le> sqrt (real_of_int d)" using d0 by simp
    finally show ?thesis using True by simp
  next
    case False
    then have pos: "0 \<le> real_of_int radius - 0.5" by simp
    have "real_of_int radius - 0.5 \<le> sqrt (real_of_int d)
            \<longleftrightarrow> (real_of_int radius - 0.5)\<^sup>2 \<le> real_of_int d"
      using pos d0 by (metis of_int_0_le_iff real_le_rsqrt real_sqrt_ge_zero sqrt_le_D
          real_sqrt_abs abs_of_nonneg real_sqrt_le_iff)
    also have "\<dots> \<longleftrightarrow> real_of_int ((2 * radius - 1) * (2 * radius - 1)) \<le> real_of_int (4 * d)"
    proof -
      have "real_of_int ((2 * radius - 1) * (2 * radius - 1)) = 4 * (real_of_int radius - 0.5)\<^sup>2"
        by (simp add: power2_eq_square algebra_simps)
      moreover have "real_of_int (4 * d) = 4 * real_of_int d" by simp
      ultimately show ?thesis by simp
    qed
    also have "\<dots> \<longleftrightarrow> (2 * radius - 1) * (2 * radius - 1) \<le> 4 * d"
      by (rule of_int_le_iff)
    finally show ?thesis using False by simp
  qed
  have upper: "sqrt (real_of_int d) \<le> real_of_int radius + 0.5
                 \<longleftrightarrow> 0 \<le> 2 * radius + 1 \<and> 4 * d \<le> (2 * radius + 1) * (2 * radius + 1)"
  proof (cases "0 \<le> 2 * radius + 1")
    case True
    then have pos: "0 \<le> real_of_int radius + 0.5" by simp
    have "sqrt (real_of_int d) \<le> real_of_int radius + 0.5
            \<longleftrightarrow> real_of_int d \<le> (real_of_int radius + 0.5)\<^sup>2"
      using pos d0 by (metis of_int_0_le_iff real_le_lsqrt real_sqrt_le_iff real_sqrt_abs
          abs_of_nonneg)
    also have "\<dots> \<longleftrightarrow> real_of_int (4 * d) \<le> real_of_int ((2 * radius + 1) * (2 * radius + 1))"
    proof -
      have "real_of_int ((2 * radius + 1) * (2 * radius + 1)) = 4 * (real_of_int radius + 0.5)\<^sup>2"
        by (simp add: power2_eq_square algebra_simps)
      moreover have "real_of_int (4 * d) = 4 * real_of_int d" by simp
      ultimately show ?thesis by simp
    qed
    also have "\<dots> \<longleftrightarrow> 4 * d \<le> (2 * radius + 1) * (2 * radius + 1)"
      by (rule of_int_le_iff)
    finally show ?thesis using True by simp
  next
    case False
    then have "real_of_int radius + 0.5 < 0" by simp
    also have "0 \<le> sqrt (real_of_int d)" using d0 by simp
    finally show ?thesis using False by simp
  qed
  show ?thesis
    unfolding inRing_def Let_def d_def [symmetric] using lower upper by blast
qed

lemma set_box_int:
  "set (concat (map (\<lambda>y. map (\<lambda>x. (x, y)) [a..b]) [c..d]))
     = {(x, y). a \<le> x \<and> x \<le> b \<and> c \<le> y \<and> y \<le> d}"
  by auto

lemma applyRipple_paint: "applyRipple N r g = paint N (rippleCells N r) g"
proof (cases "age r = 0")
  case True
  then show ?thesis by (simp add: applyRipple_def rippleCells_def paint_def)
next
  case False
  let ?box = "concat (map (\<lambda>y. map (\<lambda>x. (x, y))
                                [max 0 (rx r - age r)..min (int N - 1) (rx r + age r)])
                          [max 0 (ry r - age r)..min (int N - 1) (ry r + age r)])"
  let ?c = "\<lambda>(x, y). inRing (x - rx r) (y - ry r) (age r)"
  have "applyRipple N r g
          = fold (\<lambda>y g. fold (\<lambda>x g. if ?c (x, y) then setCellAlive N g x y else g)
                   [max 0 (rx r - age r)..min (int N - 1) (rx r + age r)] g)
              [max 0 (ry r - age r)..min (int N - 1) (ry r + age r)] g"
    using False by (simp only: applyRipple_def Let_def if_False prod.case)
  also have "\<dots> = fold (\<lambda>(x, y) g. if ?c (x, y) then setCellAlive N g x y else g) ?box g"
    by (rule fold_nested)
  also have "(\<lambda>(x, y) g. if ?c (x, y) then setCellAlive N g x y else g)
          = (\<lambda>p g. if ?c p then (\<lambda>(x, y) g. setCellAlive N g x y) p g else g)"
    by (auto simp: fun_eq_iff)
  also have "fold \<dots> ?box g = fold (\<lambda>(x, y) g. setCellAlive N g x y) (filter ?c ?box) g"
    by (rule fold_guarded)
  also have "\<dots> = paint N (rippleCells N r) g"
    using False by (simp add: paint_def rippleCells_def)
  finally show ?thesis .
qed

lemma inRing_box:
  assumes "inRing dx dy radius"
  shows "\<bar>dx\<bar> \<le> radius \<and> \<bar>dy\<bar> \<le> radius"
proof -
  from assms have nn: "0 \<le> 2 * radius + 1"
    and le: "4 * (dx * dx + dy * dy) \<le> (2 * radius + 1) * (2 * radius + 1)"
    by (simp_all add: inRing_int)
  define a b c where "a = dx * dx" and "b = dy * dy" and "c = (2 * radius + 1) * (2 * radius + 1)"
  have a0: "0 \<le> a" and b0: "0 \<le> b" by (simp_all add: a_def b_def)
  from le have ab: "4 * (a + b) \<le> c" by (simp add: a_def b_def c_def)
  from a0 b0 ab have "4 * a \<le> c" by arith
  moreover from a0 b0 ab have "4 * b \<le> c" by arith
  ultimately have "4 * a \<le> c" "4 * b \<le> c" by simp_all
  then have "(2 * dx)\<^sup>2 \<le> (2 * radius + 1)\<^sup>2" "(2 * dy)\<^sup>2 \<le> (2 * radius + 1)\<^sup>2"
    by (simp_all add: power2_eq_square a_def b_def c_def)
  then have "\<bar>2 * dx\<bar> \<le> \<bar>2 * radius + 1\<bar>" "\<bar>2 * dy\<bar> \<le> \<bar>2 * radius + 1\<bar>"
    by (simp_all only: abs_le_square_iff)
  with nn show ?thesis by linarith
qed

lemma rippleMarks_inRing:
  "rippleMarks r x y
     \<longleftrightarrow> (if age r = 0 then x = rx r \<and> y = ry r else inRing (x - rx r) (y - ry r) (age r))"
  by (simp add: rippleMarks_def inRing_def Let_def)

lemma set_rippleCells:
  assumes "inBounds N x y"
  shows "(x, y) \<in> set (rippleCells N r) \<longleftrightarrow> rippleMarks r x y"
proof (cases "age r = 0")
  case True
  then show ?thesis by (simp add: rippleCells_def rippleMarks_inRing)
next
  case False
  have "inRing (x - rx r) (y - ry r) (age r)
          \<Longrightarrow> max 0 (rx r - age r) \<le> x \<and> x \<le> min (int N - 1) (rx r + age r)
            \<and> max 0 (ry r - age r) \<le> y \<and> y \<le> min (int N - 1) (ry r + age r)"
    using inRing_box [of "x - rx r" "y - ry r" "age r"] assms
    by (auto simp: inBounds_def)
  moreover have "(x, y) \<in> set (rippleCells N r)
          \<longleftrightarrow> inRing (x - rx r) (y - ry r) (age r)
            \<and> (x, y) \<in> {(x, y). max 0 (rx r - age r) \<le> x \<and> x \<le> min (int N - 1) (rx r + age r)
                            \<and> max 0 (ry r - age r) \<le> y \<and> y \<le> min (int N - 1) (ry r + age r)}"
    using False unfolding rippleCells_def set_box_int [symmetric] by auto
  ultimately show ?thesis
    using False unfolding rippleMarks_inRing by auto
qed

lemma applyRipplesToGrid_paint:
  "applyRipplesToGrid N rs g = paint N (concat (map (rippleCells N) rs)) g"
  unfolding applyRipplesToGrid_def
  by (induction rs arbitrary: g) (simp_all add: paint_def applyRipple_paint)

lemma grid_ok_applyRipplesToGrid: "grid_ok N g \<Longrightarrow> grid_ok N (applyRipplesToGrid N rs g)"
  by (simp add: applyRipplesToGrid_paint grid_ok_paint)

lemma cells01_applyRipplesToGrid: "cells01 g \<Longrightarrow> cells01 (applyRipplesToGrid N rs g)"
  by (simp add: applyRipplesToGrid_paint cells01_paint)

lemma cell_applyRipplesToGrid:
  assumes "grid_ok N g" "inBounds N x y"
  shows "cell (applyRipplesToGrid N rs g) x y
           = (if \<exists>r \<in> set rs. rippleMarks r x y then 1 else cell g x y)"
  by (simp add: applyRipplesToGrid_paint cell_paint [OF assms] set_rippleCells [OF assms(2)])

text \<open>
  Claim C3. Applying one ripple with centre \<open>(rx r, ry r)\<close> and age \<open>k\<close> to a well-shaped
  grid keeps the shape and sets alive exactly the in-bounds cells that \<open>rippleMarks\<close>
  describes: the centre alone when \<open>k = 0\<close>, and otherwise the cells whose Euclidean
  distance from the centre lies in \<open>[k - 1/2, k + 1/2]\<close>. Every other cell keeps its value,
  so no alive cell becomes dead.
\<close>

theorem applyRipplesToGrid_single_ripple:
  assumes "grid_ok N g"
  shows "grid_ok N (applyRipplesToGrid N [r] g)
       \<and> (\<forall>x y. inBounds N x y \<longrightarrow>
             cell (applyRipplesToGrid N [r] g) x y = (if rippleMarks r x y then 1 else cell g x y))
       \<and> (\<forall>x y. inBounds N x y \<and> cell g x y = 1 \<longrightarrow> cell (applyRipplesToGrid N [r] g) x y = 1)"
proof -
  have "cell (applyRipplesToGrid N [r] g) x y = (if rippleMarks r x y then 1 else cell g x y)"
    if "inBounds N x y" for x y
    by (simp add: cell_applyRipplesToGrid [OF assms that])
  then show ?thesis
    using grid_ok_applyRipplesToGrid [OF assms, of "[r]"] by simp
qed

theorem applyRipplesToGrid_single_ripple_witness:
  "grid_ok 5 (createEmptyGrid 5) \<and> inBounds 5 3 3 \<and> inBounds 5 2 2
   \<and> rippleMarks \<lparr>rx = 2, ry = 2, age = 1, maxAge = 10\<rparr> 3 3
   \<and> cell (applyRipplesToGrid 5 [\<lparr>rx = 2, ry = 2, age = 1, maxAge = 10\<rparr>] (createEmptyGrid 5)) 3 3 = 1
   \<and> \<not> rippleMarks \<lparr>rx = 2, ry = 2, age = 1, maxAge = 10\<rparr> 2 2
   \<and> cell (applyRipplesToGrid 5 [\<lparr>rx = 2, ry = 2, age = 1, maxAge = 10\<rparr>] (createEmptyGrid 5)) 2 2 = 0"
proof -
  let ?r = "\<lparr>rx = 2, ry = 2, age = 1, maxAge = 10\<rparr>"
  have ok: "grid_ok 5 (createEmptyGrid 5)" by (rule grid_ok_createEmptyGrid)
  have inb: "inBounds 5 3 3" "inBounds 5 2 2" by (simp_all add: inBounds_def)
  have m: "rippleMarks ?r 3 3" "\<not> rippleMarks ?r 2 2"
    by (simp_all add: rippleMarks_inRing inRing_int)
  from applyRipplesToGrid_single_ripple [OF ok, of ?r] inb
  have "cell (applyRipplesToGrid 5 [?r] (createEmptyGrid 5)) 3 3
          = (if rippleMarks ?r 3 3 then 1 else cell (createEmptyGrid 5) 3 3)"
    and "cell (applyRipplesToGrid 5 [?r] (createEmptyGrid 5)) 2 2
          = (if rippleMarks ?r 2 2 then 1 else cell (createEmptyGrid 5) 2 2)"
    by blast+
  with m cell_createEmptyGrid [OF inb(2)]
  have "cell (applyRipplesToGrid 5 [?r] (createEmptyGrid 5)) 3 3 = 1"
    and "cell (applyRipplesToGrid 5 [?r] (createEmptyGrid 5)) 2 2 = 0"
    by simp_all
  with ok inb m show ?thesis by blast
qed

text \<open>
  Claim C7. On a well-shaped grid the result of applying a list of ripples depends only on
  which ripples are in the list: any permutation of the list gives the same grid, and
  applying the same ripples a second time changes nothing.
\<close>

theorem applyRipplesToGrid_order_irrelevant:
  assumes "grid_ok N g" and "mset rs = mset rs'"
  shows "applyRipplesToGrid N rs g = applyRipplesToGrid N rs' g
       \<and> applyRipplesToGrid N rs (applyRipplesToGrid N rs g) = applyRipplesToGrid N rs g"
proof -
  from assms(2) have s: "set rs = set rs'" by (rule mset_eq_setD)
  have ok: "grid_ok N (applyRipplesToGrid N rs g)" "grid_ok N (applyRipplesToGrid N rs' g)"
    using assms(1) by (rule grid_ok_applyRipplesToGrid)+
  have "applyRipplesToGrid N rs g = applyRipplesToGrid N rs' g"
    using ok
  proof (rule grid_ext)
    fix x y assume "inBounds N x y"
    then show "cell (applyRipplesToGrid N rs g) x y = cell (applyRipplesToGrid N rs' g) x y"
      by (simp add: cell_applyRipplesToGrid [OF assms(1)] s)
  qed
  moreover have "applyRipplesToGrid N rs (applyRipplesToGrid N rs g) = applyRipplesToGrid N rs g"
  proof (rule grid_ext [OF grid_ok_applyRipplesToGrid [OF ok(1)] ok(1)])
    fix x y assume inb: "inBounds N x y"
    show "cell (applyRipplesToGrid N rs (applyRipplesToGrid N rs g)) x y
            = cell (applyRipplesToGrid N rs g) x y"
      by (simp add: cell_applyRipplesToGrid [OF ok(1) inb] cell_applyRipplesToGrid [OF assms(1) inb])
  qed
  ultimately show ?thesis by blast
qed

theorem applyRipplesToGrid_order_irrelevant_witness:
  "grid_ok 5 (createEmptyGrid 5)
   \<and> mset [\<lparr>rx = 2, ry = 2, age = 1, maxAge = 10\<rparr>, \<lparr>rx = 0, ry = 4, age = 0, maxAge = 10\<rparr>]
       = mset [\<lparr>rx = 0, ry = 4, age = 0, maxAge = 10\<rparr>, \<lparr>rx = 2, ry = 2, age = 1, maxAge = 10\<rparr>]
   \<and> applyRipplesToGrid 5
         [\<lparr>rx = 2, ry = 2, age = 1, maxAge = 10\<rparr>, \<lparr>rx = 0, ry = 4, age = 0, maxAge = 10\<rparr>]
         (createEmptyGrid 5)
       = applyRipplesToGrid 5
         [\<lparr>rx = 0, ry = 4, age = 0, maxAge = 10\<rparr>, \<lparr>rx = 2, ry = 2, age = 1, maxAge = 10\<rparr>]
         (createEmptyGrid 5)"
proof -
  let ?a = "\<lparr>rx = 2, ry = 2, age = 1, maxAge = 10\<rparr>"
  let ?b = "\<lparr>rx = 0, ry = 4, age = 0, maxAge = 10\<rparr>"
  have ok: "grid_ok 5 (createEmptyGrid 5)" by (rule grid_ok_createEmptyGrid)
  have m: "mset [?a, ?b] = mset [?b, ?a]" by simp
  from applyRipplesToGrid_order_irrelevant [OF ok m] ok m show ?thesis by blast
qed

section \<open>The blinker\<close>

lemma hline_step:
  "lifeRule (hline cx cy x y)
     (sum_list (map (\<lambda>(nx, ny). hline cx cy nx ny) (around x y))) = vline cx cy x y"
proof -
  have cx: "x \<le> cx - 3 \<or> x = cx - 2 \<or> x = cx - 1 \<or> x = cx \<or> x = cx + 1 \<or> x = cx + 2 \<or> cx + 3 \<le> x"
    by arith
  have cy: "y \<le> cy - 2 \<or> y = cy - 1 \<or> y = cy \<or> y = cy + 1 \<or> cy + 2 \<le> y"
    by arith
  from cx cy show ?thesis
    by (elim disjE) (simp_all add: lifeRule_def hline_def vline_def around_def)
qed

lemma vline_step:
  "lifeRule (vline cx cy x y)
     (sum_list (map (\<lambda>(nx, ny). vline cx cy nx ny) (around x y))) = hline cx cy x y"
proof -
  have cx: "x \<le> cx - 2 \<or> x = cx - 1 \<or> x = cx \<or> x = cx + 1 \<or> cx + 2 \<le> x"
    by arith
  have cy: "y \<le> cy - 3 \<or> y = cy - 2 \<or> y = cy - 1 \<or> y = cy \<or> y = cy + 1 \<or> y = cy + 2 \<or> cy + 3 \<le> y"
    by arith
  from cx cy show ?thesis
    by (elim disjE) (simp_all add: lifeRule_def hline_def vline_def around_def)
qed

lemma nextCell_lifeRule:
  "nextCell N g x y
     = lifeRule (cell g x y) (sum_list (map (\<lambda>(nx, ny). nb N g nx ny) (around x y)))"
  by (simp add: nextCell_def lifeRule_def Let_def countNeighbors_unfold)

lemma nextGeneration_of_picture:
  assumes "grid_ok N g"
    and pic: "\<And>x y. inBounds N x y \<Longrightarrow> cell g x y = f x y"
    and out: "\<And>x y. \<not> inBounds N x y \<Longrightarrow> f x y = 0"
    and inb: "inBounds N x y"
  shows "cell (nextGeneration N g) x y
           = lifeRule (f x y) (sum_list (map (\<lambda>(nx, ny). f nx ny) (around x y)))"
proof -
  have "nb N g nx ny = f nx ny" for nx ny
    using pic [of nx ny] out [of nx ny] by (simp add: nb_def)
  then show ?thesis
    by (simp add: cell_nextGeneration [OF inb] nextCell_lifeRule pic [OF inb])
qed

text \<open>
  Claim C8. Let the grid hold a horizontal row of three alive cells centred at \<open>(cx, cy)\<close>
  and nothing else, with the row and the column of three through the same centre inside
  the grid (in particular whenever the three cells and all their neighbours are away from
  the border). Then one step gives the vertical row of three through \<open>(cx, cy)\<close> and
  nothing else, and a second step gives back the original grid.
\<close>

theorem blinker_period_two:
  assumes "grid_ok N g"
    and "1 \<le> cx" and "cx + 1 < int N" and "1 \<le> cy" and "cy + 1 < int N"
    and "\<forall>x y. inBounds N x y \<longrightarrow> cell g x y = (if y = cy \<and> \<bar>x - cx\<bar> \<le> 1 then 1 else 0)"
  shows "(\<forall>x y. inBounds N x y \<longrightarrow>
            cell (nextGeneration N g) x y = (if x = cx \<and> \<bar>y - cy\<bar> \<le> 1 then 1 else 0))
       \<and> nextGeneration N (nextGeneration N g) = g"
proof -
  have h_out: "hline cx cy x y = 0" if "\<not> inBounds N x y" for x y
    using that assms(2-5) by (auto simp: hline_def inBounds_def)
  have v_out: "vline cx cy x y = 0" if "\<not> inBounds N x y" for x y
    using that assms(2-5) by (auto simp: vline_def inBounds_def)
  have g: "cell g x y = hline cx cy x y" if "inBounds N x y" for x y
    using that assms(6) by (simp add: hline_def)
  have one: "cell (nextGeneration N g) x y = vline cx cy x y" if "inBounds N x y" for x y
    using nextGeneration_of_picture [OF assms(1) g h_out that]
    by (simp add: hline_step)
  have two: "cell (nextGeneration N (nextGeneration N g)) x y = hline cx cy x y"
    if "inBounds N x y" for x y
    using nextGeneration_of_picture [OF grid_ok_nextGeneration one v_out that]
    by (simp add: vline_step)
  have "nextGeneration N (nextGeneration N g) = g"
    using grid_ok_nextGeneration assms(1)
  proof (rule grid_ext)
    fix x y assume "inBounds N x y"
    then show "cell (nextGeneration N (nextGeneration N g)) x y = cell g x y"
      by (simp add: two g)
  qed
  with one show ?thesis by (simp add: vline_def)
qed

theorem blinker_period_two_witness:
  "grid_ok 3 [[0, 0, 0], [1, 1, 1], [0, 0, 0]]
   \<and> cell (nextGeneration 3 [[0, 0, 0], [1, 1, 1], [0, 0, 0]]) 1 0 = 1
   \<and> cell (nextGeneration 3 [[0, 0, 0], [1, 1, 1], [0, 0, 0]]) 0 1 = 0
   \<and> nextGeneration 3 (nextGeneration 3 [[0, 0, 0], [1, 1, 1], [0, 0, 0]])
       = [[0, 0, 0], [1, 1, 1], [0, 0, 0]]"
proof -
  let ?g = "[[0, 0, 0], [1, 1, 1], [0, 0, 0 :: int]]"
  have ok: "grid_ok 3 ?g" by (simp add: grid_ok_def)
  have pic: "\<forall>x y. inBounds 3 x y \<longrightarrow> cell ?g x y = (if y = 1 \<and> \<bar>x - 1\<bar> \<le> 1 then 1 else 0)"
  proof (intro allI impI)
    fix x y :: int assume "inBounds 3 x y"
    then have "(x = 0 \<or> x = 1 \<or> x = 2) \<and> (y = 0 \<or> y = 1 \<or> y = 2)"
      unfolding inBounds_def by arith
    then show "cell ?g x y = (if y = 1 \<and> \<bar>x - 1\<bar> \<le> 1 then 1 else 0)"
      by (auto simp: cell_def)
  qed
  have inb: "inBounds 3 1 0" "inBounds 3 0 1" by (simp_all add: inBounds_def)
  from blinker_period_two [OF ok _ _ _ _ pic]
  have r: "(\<forall>x y. inBounds 3 x y \<longrightarrow>
            cell (nextGeneration 3 ?g) x y = (if x = 1 \<and> \<bar>y - 1\<bar> \<le> 1 then 1 else 0))
       \<and> nextGeneration 3 (nextGeneration 3 ?g) = ?g"
    by simp
  with inb have "cell (nextGeneration 3 ?g) 1 0 = (if (1::int) = 1 \<and> \<bar>(0::int) - 1\<bar> \<le> 1 then 1 else 0)"
    and "cell (nextGeneration 3 ?g) 0 1 = (if (0::int) = 1 \<and> \<bar>(1::int) - 1\<bar> \<le> 1 then 1 else 0)"
    by blast+
  then have "cell (nextGeneration 3 ?g) 1 0 = 1" "cell (nextGeneration 3 ?g) 0 1 = 0"
    by simp_all
  with ok r show ?thesis by blast
qed

section \<open>Fold invariants\<close>

lemma fold_invariant:
  assumes "P g" and "\<And>p g. p \<in> set ps \<Longrightarrow> P g \<Longrightarrow> P (f p g)"
  shows "P (fold f ps g)"
  using assms by (induction ps arbitrary: g) auto

lemma randomizeGrid_ok: "grid_ok N g \<Longrightarrow> grid_ok N (randomizeGrid N random g)"
  unfolding randomizeGrid_def
  by (intro fold_invariant [where P = "grid_ok N"] grid_ok_setCell)

lemma randomizeGrid_cells01: "cells01 g \<Longrightarrow> cells01 (randomizeGrid N random g)"
  unfolding randomizeGrid_def
  by (intro fold_invariant [where P = cells01] cells01_setCell) auto

lemma rectangular_LETTERS: "map_of LETTERS ch = Some pattern \<Longrightarrow> rectangular pattern"
  by (auto simp: LETTERS_def rectangular_def split: if_splits)


section \<open>Ageing ripples\<close>

lemma updateRipples_loop_eq:
  "k \<le> length rs \<Longrightarrow>
     updateRipples_loop k rs
       = filter (\<lambda>r. age r \<le> maxAge r) (map older (take k rs)) @ drop k rs"
proof (induction k arbitrary: rs)
  case 0
  show ?case by simp
next
  case (Suc k)
  then have k: "k < length rs" by simp
  let ?rs1 = "rs[k := older (rs ! k)]"
  have tk: "take (Suc k) rs = take k rs @ [rs ! k]"
    using k by (simp add: take_Suc_conv_app_nth)
  have t1: "take k ?rs1 = take k rs" by simp
  have d1: "drop (Suc k) ?rs1 = drop (Suc k) rs" by simp
  have n1: "?rs1 ! k = older (rs ! k)" using k by simp
  show ?case
  proof (cases "age (older (rs ! k)) > maxAge (older (rs ! k))")
    case True
    let ?rs2 = "take k rs @ drop (Suc k) rs"
    have len: "k \<le> length ?rs2" using k by simp
    have "updateRipples_loop (Suc k) rs = updateRipples_loop k ?rs2"
      using True n1 t1 d1 by (simp add: older_def Let_def)
    also have "\<dots> = filter (\<lambda>r. age r \<le> maxAge r) (map older (take k ?rs2)) @ drop k ?rs2"
      by (rule Suc.IH [OF len])
    also have "take k ?rs2 = take k rs" using k by simp
    also have "drop k ?rs2 = drop (Suc k) rs" using k by simp
    finally show ?thesis using True by (simp add: tk)
  next
    case False
    have len: "k \<le> length ?rs1" using k by simp
    have "updateRipples_loop (Suc k) rs = updateRipples_loop k ?rs1"
      using False n1 by (simp add: older_def Let_def)
    also have "\<dots> = filter (\<lambda>r. age r \<le> maxAge r) (map older (take k ?rs1)) @ drop k ?rs1"
      by (rule Suc.IH [OF len])
    also have "drop k ?rs1 = older (rs ! k) # drop (Suc k) rs"
    proof -
      have "?rs1 = take k rs @ older (rs ! k) # drop (Suc k) rs"
        using k by (rule upd_conv_take_nth_drop)
      then have "drop k ?rs1 = drop k (take k rs @ older (rs ! k) # drop (Suc k) rs)"
        by simp
      also have "\<dots> = older (rs ! k) # drop (Suc k) rs"
        using k by simp
      finally show ?thesis .
    qed
    finally show ?thesis using False by (simp add: tk t1)
  qed
qed

lemma updateRipples_eq:
  "updateRipples rs = filter (\<lambda>r. age r \<le> maxAge r) (map older rs)"
  by (simp add: updateRipples_def updateRipples_loop_eq)

section \<open>Invariants of the operations\<close>

lemma grid_inv_createEmptyGrid: "grid_inv N (createEmptyGrid N)"
  by (simp add: grid_inv_def grid_ok_createEmptyGrid cells01_createEmptyGrid)

lemma grid_inv_paint: "grid_inv N g \<Longrightarrow> grid_inv N (paint N ps g)"
  by (simp add: grid_inv_def grid_ok_paint cells01_paint)

lemma grid_inv_nextGeneration: "grid_inv N (nextGeneration N g)"
  by (simp add: grid_inv_def grid_ok_nextGeneration cells01_nextGeneration)

lemma grid_inv_applyRipplesToGrid: "grid_inv N g \<Longrightarrow> grid_inv N (applyRipplesToGrid N rs g)"
  by (simp add: grid_inv_def grid_ok_applyRipplesToGrid cells01_applyRipplesToGrid)

lemma grid_inv_randomizeGrid: "grid_inv N g \<Longrightarrow> grid_inv N (randomizeGrid N random g)"
  by (simp add: grid_inv_def randomizeGrid_ok randomizeGrid_cells01)

lemma grid_inv_setCell: "grid_inv N g \<Longrightarrow> v = 0 \<or> v = 1 \<Longrightarrow> grid_inv N (setCell g x y v)"
  by (simp add: grid_inv_def grid_ok_setCell cells01_setCell)

lemma grid_inv_stampPattern:
  assumes "stampPattern N pattern offsetX offsetY g = Inr g'" and "grid_inv N g"
  shows "grid_inv N g'"
proof (cases pattern)
  case Nil
  with assms(1) show ?thesis by (simp add: stampPattern_def)
next
  case (Cons row0 rest)
  with assms(1) have "g' = paint N (stampCells (row0 # rest) (length row0) offsetX offsetY) g"
    by (simp add: stampPattern_paint)
  with assms(2) show ?thesis by (simp add: grid_inv_paint)
qed

lemma stampPattern_total:
  "pattern \<noteq> [] \<Longrightarrow> \<exists>g'. stampPattern N pattern offsetX offsetY g = Inr g'"
  by (cases pattern) (simp_all add: stampPattern_paint)

lemma grid_inv_placeWord_loop:
  "placeWord_loop N word x startY g = Inr g' \<Longrightarrow> grid_inv N g \<Longrightarrow> grid_inv N g'"
proof (induction word arbitrary: x g)
  case Nil
  then show ?case by simp
next
  case (Cons ch word)
  from Cons.prems(1) obtain pattern g1 where
      "stampPattern N pattern x startY g = Inr g1"
      "placeWord_loop N word (x + (LETTER_WIDTH + LETTER_SPACING)) startY g1 = Inr g'"
    by (auto split: option.splits sum.splits)
  then show ?case
    using Cons.IH Cons.prems(2) grid_inv_stampPattern by blast
qed

lemma placeWord_loop_total:
  "\<forall>ch \<in> set word. \<exists>pattern. map_of LETTERS ch = Some pattern
     \<Longrightarrow> \<exists>g'. placeWord_loop N word x startY g = Inr g'"
proof (induction word arbitrary: x g)
  case Nil
  show ?case by simp
next
  case (Cons ch word)
  then obtain pattern where p: "map_of LETTERS ch = Some pattern" by auto
  then have "pattern \<noteq> []" using rectangular_LETTERS [OF p] by (simp add: rectangular_def)
  then obtain g1 where g1: "stampPattern N pattern x startY g = Inr g1"
    using stampPattern_total by blast
  from Cons.IH [of "x + (LETTER_WIDTH + LETTER_SPACING)" g1] Cons.prems
  obtain g' where "placeWord_loop N word (x + (LETTER_WIDTH + LETTER_SPACING)) startY g1 = Inr g'"
    by auto
  with p g1 show ?case by simp
qed

lemma placeWordANDER_total: "\<exists>g'. placeWordANDER N g = Inr g'"
  unfolding placeWordANDER_def Let_def
  by (rule placeWord_loop_total) (simp add: LETTERS_def)

lemma grid_inv_placeWordANDER:
  "placeWordANDER N g = Inr g' \<Longrightarrow> grid_inv N g \<Longrightarrow> grid_inv N g'"
  unfolding placeWordANDER_def Let_def by (rule grid_inv_placeWord_loop)

lemma grid_inv_scatter_loop:
  "scatter_loop N D random names i n g = Inr g' \<Longrightarrow> grid_inv N g \<Longrightarrow> grid_inv N g'"
proof (induction n arbitrary: i g)
  case 0
  then show ?case by simp
next
  case (Suc n)
  from Suc.prems(1) obtain pattern startX startY g1 where
      "stampPattern N pattern startX startY g = Inr g1"
      "scatter_loop N D random names (i + 1) n g1 = Inr g'"
    by (auto simp: Let_def split: if_splits option.splits list.splits sum.splits)
  then show ?case
    using Suc.IH Suc.prems(2) grid_inv_stampPattern by blast
qed

lemma grid_inv_placeRandomNatureShapesScattered:
  "placeRandomNatureShapesScattered N D random g = Inr g' \<Longrightarrow> grid_inv N g \<Longrightarrow> grid_inv N g'"
  unfolding placeRandomNatureShapesScattered_def Let_def by (rule grid_inv_scatter_loop)

lemma ripple_inv_older:
  "ripple_inv N r \<Longrightarrow> age (older r) \<le> maxAge (older r) \<Longrightarrow> ripple_inv N (older r)"
  by (simp add: ripple_inv_def older_def)

lemma ripple_inv_updateRipples:
  "\<forall>r \<in> set rs. ripple_inv N r \<Longrightarrow> \<forall>r \<in> set (updateRipples rs). ripple_inv N r"
  by (auto simp: updateRipples_eq ripple_inv_older)

lemma ripple_inv_spawnRipple:
  "\<forall>r \<in> set rs. ripple_inv N r \<Longrightarrow> inBounds N x y
     \<Longrightarrow> \<forall>r \<in> set (spawnRipple x y rs). ripple_inv N r"
  by (auto simp: spawnRipple_def ripple_inv_def)

section \<open>Reachable states\<close>

lemma initA_total:
  "\<exists>g. initA now = Inr \<lparr>gridSize = 80, grid = g, running = True, speedMs = 5000,
                          lastStepTime = now, screen = drawGrid 80 g,
                          lastResetTime = now, ripples = []\<rparr>"
proof -
  obtain g where "placeWordANDER 80 (createEmptyGrid 80) = Inr g"
    using placeWordANDER_total by blast
  then show ?thesis by (simp add: initA_def)
qed

lemma invA_init: "initA now = Inr s \<Longrightarrow> invA s"
proof -
  assume a: "initA now = Inr s"
  then obtain g where g: "placeWordANDER 80 (createEmptyGrid 80) = Inr g"
    and s: "s = \<lparr>gridSize = 80, grid = g, running = True, speedMs = 5000,
                  lastStepTime = now, screen = drawGrid 80 g,
                  lastResetTime = now, ripples = []\<rparr>"
    by (auto simp: initA_def split: sum.splits)
  from g have "grid_inv 80 g"
    by (rule grid_inv_placeWordANDER) (rule grid_inv_createEmptyGrid)
  with s show ?thesis by (simp add: invA_def)
qed

lemma invA_tickA: "invA s \<Longrightarrow> invA (tickA timestamp s)"
  using ripple_inv_updateRipples [of "ripples s" "gridSize s"]
  by (simp add: invA_def tickA_def Let_def grid_inv_applyRipplesToGrid grid_inv_nextGeneration)

lemma invA_clickA: "invA s \<Longrightarrow> invA (clickA gridX gridY s)"
  using ripple_inv_spawnRipple [of "ripples s" "gridSize s" gridX gridY]
  by (simp add: invA_def clickA_def inBounds_def)

lemma invA_resetA:
  assumes "invA s1" and "resetA D timestamp random s1 = Inr s'"
  shows "invA s'"
proof (cases "dsub D timestamp (lastResetTime s1) \<ge> resetIntervalMs")
  case False
  with assms(2) have "s' = s1" by (simp add: resetA_def)
  with assms(1) show ?thesis by simp
next
  case True
  with assms(2) obtain g where
      g: "placeRandomNatureShapesScattered (gridSize s1) D random (createEmptyGrid (gridSize s1)) = Inr g"
    and s': "s' = s1\<lparr>grid := g, screen := drawGrid (gridSize s1) g, lastResetTime := timestamp\<rparr>"
    by (auto simp: resetA_def split: sum.splits)
  from g have "grid_inv (gridSize s1) g"
    by (rule grid_inv_placeRandomNatureShapesScattered) (rule grid_inv_createEmptyGrid)
  with assms(1) s' show ?thesis by (simp add: invA_def)
qed

lemma invA_loopA:
  assumes "invA s" and "loopA D timestamp random s = Inr s'"
  shows "invA s'"
proof (cases "running s")
  case False
  with assms show ?thesis by (simp add: loopA_def)
next
  case True
  define s1 where "s1 = (if dsub D timestamp (lastStepTime s) \<ge> speedMs s then tickA timestamp s else s)"
  have i1: "invA s1" using assms(1) by (simp add: s1_def invA_tickA)
  from True assms(2) have "resetA D timestamp random s1 = Inr s'"
    by (simp add: loopA_def Let_def s1_def)
  with i1 show ?thesis by (rule invA_resetA)
qed

lemma invA_stepA: "invA s \<Longrightarrow> stepA D e s = Inr s' \<Longrightarrow> invA s'"
proof (cases e)
  case (ClickA gridX gridY)
  assume "invA s" "stepA D e s = Inr s'"
  with ClickA show ?thesis using invA_clickA by auto
next
  case (FrameA timestamp random)
  assume "invA s" "stepA D e s = Inr s'"
  with FrameA show ?thesis using invA_loopA by auto
next
  case ResizeA
  assume "invA s" "stepA D e s = Inr s'"
  with ResizeA show ?thesis by (auto simp: invA_def resizeCanvas_def)
qed

lemma reachableA_invA: "reachableA D s \<Longrightarrow> invA s"
  by (induction rule: reachableA.induct) (auto intro: invA_init invA_stepA)

lemma grid_inv_stepB:
  assumes "grid_inv (gridSize s) (grid s)"
  shows "grid_inv (gridSize (stepB D e s)) (grid (stepB D e s))"
proof (cases e)
  case StartB
  with assms show ?thesis by (simp add: startBtn_click_def)
next
  case PauseB
  with assms show ?thesis by (simp add: pauseBtn_click_def)
next
  case StepB
  then show ?thesis
    by (simp add: stepBtn_click_def Let_def nextGenerationB_eq grid_inv_nextGeneration)
next
  case ClearB
  then show ?thesis by (simp add: clearBtn_click_def Let_def grid_inv_createEmptyGrid)
next
  case (RandomB random)
  with assms show ?thesis by (simp add: randomBtn_click_def Let_def grid_inv_randomizeGrid)
next
  case (GridSizeB n)
  then show ?thesis
    by (simp add: gridSizeSelect_change_def resizeCanvas_def grid_inv_createEmptyGrid)
next
  case (SpeedB v)
  with assms show ?thesis by (simp add: speedRange_input_def)
next
  case (ClickB gridX gridY)
  with assms show ?thesis by (simp add: clickB_def Let_def grid_inv_setCell)
next
  case (FrameB timestamp)
  with assms show ?thesis
    by (simp add: loopB_def Let_def nextGenerationB_eq grid_inv_nextGeneration)
next
  case ResizeB
  with assms show ?thesis by (simp add: resizeCanvas_def)
qed

lemma reachableB_inv: "reachableB D s \<Longrightarrow> grid_inv (gridSize s) (grid s)"
proof (induction rule: reachableB.induct)
  case reachB_init
  show ?case by (simp add: initB_def grid_inv_createEmptyGrid)
next
  case (reachB_step s e)
  then show ?case by (simp add: grid_inv_stepB)
qed

lemma cells01_stampPattern:
  assumes "stampPattern N pattern offsetX offsetY g = Inr g'" and "cells01 g"
  shows "cells01 g'"
proof (cases pattern)
  case Nil
  with assms(1) show ?thesis by (simp add: stampPattern_def)
next
  case (Cons row0 rest)
  with assms(1) have "g' = paint N (stampCells (row0 # rest) (length row0) offsetX offsetY) g"
    by (simp add: stampPattern_paint)
  with assms(2) show ?thesis by (simp add: cells01_paint)
qed

lemma cells01_clickB: "cells01 (grid s) \<Longrightarrow> cells01 (grid (clickB gridX gridY s))"
  by (simp add: clickB_def Let_def cells01_setCell)

section \<open>Ripple life cycle, cell values and the controls\<close>

lemma ripples_resetA: "resetA D timestamp random s1 = Inr s' \<Longrightarrow> ripples s' = ripples s1"
  by (auto simp: resetA_def split: if_splits sum.splits)

lemma ripples_loopA:
  assumes "loopA D timestamp random s = Inr s'"
  shows "ripples s' = (if running s \<and> dsub D timestamp (lastStepTime s) \<ge> speedMs s
                       then updateRipples (ripples s) else ripples s)"
proof (cases "running s")
  case False
  with assms show ?thesis by (simp add: loopA_def)
next
  case True
  define s1 where "s1 = (if dsub D timestamp (lastStepTime s) \<ge> speedMs s then tickA timestamp s else s)"
  from True assms have "resetA D timestamp random s1 = Inr s'"
    by (simp add: loopA_def Let_def s1_def)
  then have "ripples s' = ripples s1" by (rule ripples_resetA)
  with True show ?thesis by (simp add: s1_def tickA_def Let_def)
qed

text \<open>
  Claim C4. A spawned ripple is appended with age 0 and maxAge 10. \<open>updateRipples\<close> adds
  exactly 1 to the age of every ripple and drops, in the same call, those whose new age
  exceeds their maxAge. A call of the loop that performs a generation tick (the simulation
  runs and the double \<^verbatim>\<open>timestamp - lastStepTime\<close> is at least \<^verbatim>\<open>speedMs\<close>) replaces the
  ripple list by \<open>updateRipples\<close> of it, and a call that performs none leaves the list as
  it is. In every reachable state of variant A, every ripple in the list has
  \<open>age \<le> maxAge\<close> and \<open>maxAge = 10\<close>. All of this holds whatever the double operations
  return.
\<close>

theorem ripple_lifecycle:
  "spawnRipple x y rs = rs @ [\<lparr>rx = x, ry = y, age = 0, maxAge = 10\<rparr>]
   \<and> updateRipples rs = filter (\<lambda>r. age r \<le> maxAge r) (map (\<lambda>r. r\<lparr>age := age r + 1\<rparr>) rs)
   \<and> (loopA D timestamp random s = Inr s' \<longrightarrow>
        ripples s' = (if running s \<and> dsub D timestamp (lastStepTime s) \<ge> speedMs s
                      then updateRipples (ripples s) else ripples s))
   \<and> (reachableA D t \<longrightarrow> (\<forall>r \<in> set (ripples t). age r \<le> maxAge r \<and> maxAge r = 10))"
proof -
  have a: "spawnRipple x y rs = rs @ [\<lparr>rx = x, ry = y, age = 0, maxAge = 10\<rparr>]"
    by (simp add: spawnRipple_def)
  have b: "updateRipples rs = filter (\<lambda>r. age r \<le> maxAge r) (map (\<lambda>r. r\<lparr>age := age r + 1\<rparr>) rs)"
    using updateRipples_eq [of rs] by (simp add: older_def [abs_def])
  have c: "loopA D timestamp random s = Inr s' \<longrightarrow>
        ripples s' = (if running s \<and> dsub D timestamp (lastStepTime s) \<ge> speedMs s
                      then updateRipples (ripples s) else ripples s)"
    using ripples_loopA [of D timestamp random s s'] by blast
  have d: "reachableA D t \<longrightarrow> (\<forall>r \<in> set (ripples t). age r \<le> maxAge r \<and> maxAge r = 10)"
  proof (intro impI ballI)
    fix r assume "reachableA D t" and "r \<in> set (ripples t)"
    then have "ripple_inv (gridSize t) r"
      using reachableA_invA [of D t] by (simp add: invA_def)
    then show "age r \<le> maxAge r \<and> maxAge r = 10" by (simp add: ripple_inv_def)
  qed
  from a b c d show ?thesis by blast
qed

theorem ripple_lifecycle_witness:
  "\<exists>s s'. reachableA exact_ops s \<and> ripples s = [\<lparr>rx = 3, ry = 4, age = 0, maxAge = 10\<rparr>]
         \<and> loopA exact_ops 5000 zero_draws s = Inr s'
         \<and> ripples s' = [\<lparr>rx = 3, ry = 4, age = 1, maxAge = 10\<rparr>]
         \<and> reachableA exact_ops s'
         \<and> (\<forall>r \<in> set (ripples s'). age r \<le> maxAge r \<and> maxAge r = 10)"
proof -
  obtain g where i: "initA 0 = Inr \<lparr>gridSize = 80, grid = g, running = True, speedMs = 5000,
                          lastStepTime = 0, screen = drawGrid 80 g,
                          lastResetTime = 0, ripples = []\<rparr>" (is "_ = Inr ?s0")
    using initA_total [of 0] by blast
  define s where "s = clickA 3 4 ?s0"
  define s' where "s' = tickA 5000 s"
  have r0: "reachableA exact_ops ?s0" using i by (rule reachA_init)
  have rs: "reachableA exact_ops s"
    by (rule reachA_step [OF r0, of "ClickA 3 4"]) (simp add: s_def)
  have rip: "ripples s = [\<lparr>rx = 3, ry = 4, age = 0, maxAge = 10\<rparr>]"
    by (simp add: s_def clickA_def spawnRipple_def)
  have run: "running s" "lastStepTime s = 0" "speedMs s = 5000" "lastResetTime s = 0"
    by (simp_all add: s_def clickA_def)
  have l: "loopA exact_ops 5000 zero_draws s = Inr s'"
    using run
    by (simp add: loopA_def resetA_def Let_def s'_def tickA_def resetIntervalMs_def exact_ops_def)
  have rs': "reachableA exact_ops s'"
    by (rule reachA_step [OF rs, of "FrameA 5000 zero_draws"]) (simp add: l)
  note t = ripple_lifecycle [where rs = "ripples s" and D = exact_ops and timestamp = 5000
      and random = zero_draws and s = s and s' = s' and t = s']
  from t l run rip
  have "ripples s' = [\<lparr>rx = 3, ry = 4, age = 1, maxAge = 10\<rparr>]"
    by (simp add: exact_ops_def)
  moreover from t rs'
  have "\<forall>r \<in> set (ripples s'). age r \<le> maxAge r \<and> maxAge r = 10" by blast
  ultimately show ?thesis using rs rip l rs' by blast
qed

text \<open>
  Claim C9. A new grid holds 0 in every cell, and each operation that writes cells
  (generation step of either variant, stamping, ripple application, randomisation, the
  click toggle) turns a grid of 0/1 cells into a grid of 0/1 cells. Hence in every
  reachable state of variant A and of variant B every cell of the grid is 0 or 1,
  whatever the double operations return.
\<close>

theorem cells_always_0_or_1:
  "createEmptyGrid N = replicate N (replicate N 0)
   \<and> cells01 (createEmptyGrid N)
   \<and> cells01 (nextGeneration N g) \<and> cells01 (nextGenerationB N g)
   \<and> (cells01 g \<longrightarrow>
        (\<forall>g'. stampPattern N pattern offsetX offsetY g = Inr g' \<longrightarrow> cells01 g')
        \<and> cells01 (applyRipplesToGrid N rs g)
        \<and> cells01 (randomizeGrid N random g))
   \<and> (cells01 (grid b) \<longrightarrow> cells01 (grid (clickB gridX gridY b)))
   \<and> (reachableA D s \<longrightarrow> cells01 (grid s))
   \<and> (reachableB D t \<longrightarrow> cells01 (grid t))"
proof -
  have "cells01 (grid s)" if "reachableA D s"
    using reachableA_invA [OF that] by (simp add: invA_def grid_inv_def)
  moreover have "cells01 (grid t)" if "reachableB D t"
    using reachableB_inv [OF that] by (simp add: grid_inv_def)
  moreover have "\<forall>g'. stampPattern N pattern offsetX offsetY g = Inr g' \<longrightarrow> cells01 g'"
    if "cells01 g"
    using that cells01_stampPattern by blast
  ultimately show ?thesis
    using cells01_createEmptyGrid [of N] cells01_nextGeneration [of N g]
      nextGenerationB_eq [of N g] cells01_applyRipplesToGrid [of g N rs]
      randomizeGrid_cells01 [of g N random] cells01_clickB [of b gridX gridY]
    by (simp add: createEmptyGrid_def)
qed

theorem cells_always_0_or_1_witness:
  "cells01 [[0, 1], [1, 0]]
   \<and> cells01 (randomizeGrid 2 zero_draws [[0, 1], [1, 0]])
   \<and> reachableB exact_ops (stepB exact_ops (ClickB 1 1) initB)
   \<and> cells01 (grid (stepB exact_ops (ClickB 1 1) initB))
   \<and> (\<exists>s. reachableA exact_ops s \<and> cells01 (grid s))"
proof -
  let ?g = "[[0, 1], [1, 0 :: int]]"
  have c: "cells01 ?g" by (simp add: cells01_def)
  have rb: "reachableB exact_ops (stepB exact_ops (ClickB 1 1) initB)"
    by (rule reachB_step) (rule reachB_init)
  obtain s where ra: "reachableA exact_ops s"
    using initA_total [of 0] reachA_init by blast
  note t = cells_always_0_or_1 [where N = 2 and g = ?g and random = zero_draws and b = initB
      and gridX = 1 and gridY = 1 and D = exact_ops and s = s
      and t = "stepB exact_ops (ClickB 1 1) initB"]
  from t c have "cells01 (randomizeGrid 2 zero_draws ?g)" by blast
  moreover from t rb have "cells01 (grid (stepB exact_ops (ClickB 1 1) initB))" by blast
  moreover from t ra have "cells01 (grid s)" by blast
  ultimately show ?thesis using c rb ra by blast
qed

text \<open>
  Claim C10. In variant B the single-step control stops the simulation, replaces the grid
  by its next generation (one step) and redraws it; the clear control stops the
  simulation, replaces the grid by an all-dead grid of the current size and redraws it.
  After either control a frame of the driver loop changes nothing, as \<open>running\<close> is false.
\<close>

theorem step_and_clear_leave_simulation_paused:
  "running (stepBtn_click s) = False
   \<and> gridSize (stepBtn_click s) = gridSize s
   \<and> grid (stepBtn_click s) = nextGenerationB (gridSize s) (grid s)
   \<and> screen (stepBtn_click s) = drawGrid (gridSize s) (nextGenerationB (gridSize s) (grid s))
   \<and> loopB D timestamp (stepBtn_click s) = stepBtn_click s
   \<and> running (clearBtn_click s) = False
   \<and> gridSize (clearBtn_click s) = gridSize s
   \<and> grid (clearBtn_click s) = replicate (gridSize s) (replicate (gridSize s) 0)
   \<and> screen (clearBtn_click s) = drawGrid (gridSize s) (grid (clearBtn_click s))
   \<and> loopB D timestamp (clearBtn_click s) = clearBtn_click s"
  by (simp add: stepBtn_click_def clearBtn_click_def loopB_def Let_def createEmptyGrid_def)

section \<open>Ripples and the driver loop\<close>
















end
